theory Spec2Isabelle
  imports Complex_Main "HOL-Library.Multiset"
begin

section \<open>Circuit data\<close>

text \<open>
  The passes work on Qiskit circuits built as \<open>QuantumCircuit(n, m)\<close>: one register of
  qubits and one of classical bits, so that the index of a bit within its register is its
  index in the circuit (\<open>circuit.find_bit(q).index\<close>); bits are identified with these
  indices. An instruction (a gate object) carries a name and its parameters; an entry of
  \<open>circuit.data\<close> pairs an instruction with the qubits and the classical bits it acts on.
  Angles are real numbers: rounding in binary64 is not modelled.

  \<open>QuantumCircuit.append\<close> is taken as appending the entry it is given. Qiskit's own check
  of the operands, which raises \<open>CircuitError\<close> for an instruction that carries classical
  bits and is appended without any, and for a qubit of another register, is not modelled:
  the properties below that depend on it are stated for circuits whose entries carry no
  classical bits.
\<close>

record instruction =
  name :: string
  params :: "real list"

record circuit_instruction =
  operation :: instruction
  qargs :: "nat list"
  cargs :: "nat list"

record quantum_circuit =
  num_qubits :: nat
  num_clbits :: nat
  data :: "circuit_instruction list"

datatype error = IndexError | ValueError

text \<open>\<open>QuantumCircuit(n)\<close> has no classical bits; \<open>QuantumCircuit(n, m)\<close> has \<open>m\<close>.\<close>

definition QuantumCircuit :: "nat \<Rightarrow> nat \<Rightarrow> quantum_circuit" where
  "QuantumCircuit n m = \<lparr>num_qubits = n, num_clbits = m, data = []\<rparr>"

definition append_op :: "quantum_circuit \<Rightarrow> instruction \<Rightarrow> nat list \<Rightarrow> nat list \<Rightarrow> quantum_circuit" where
  "append_op c g qs cs = c\<lparr>data := data c @ [\<lparr>operation = g, qargs = qs, cargs = cs\<rparr>]\<rparr>"

definition RXGate :: "real \<Rightarrow> instruction" where
  "RXGate a = \<lparr>name = ''rx'', params = [a]\<rparr>"

definition RYGate :: "real \<Rightarrow> instruction" where
  "RYGate a = \<lparr>name = ''ry'', params = [a]\<rparr>"

definition RZGate :: "real \<Rightarrow> instruction" where
  "RZGate a = \<lparr>name = ''rz'', params = [a]\<rparr>"

definition RXXGate :: "real \<Rightarrow> instruction" where
  "RXXGate a = \<lparr>name = ''rxx'', params = [a]\<rparr>"

section \<open>IonQ pass: gate set translation and rotation fusion\<close>

text \<open>
  \<open>_optimize_gate_set\<close>: one rewrite per entry, first match wins. \<open>qubits[0]\<close> raises
  \<open>IndexError\<close> on an entry without qubits, and \<open>control, target = qubits\<close> raises
  \<open>ValueError\<close> unless there are exactly two.
\<close>

definition gate_set_step :: "quantum_circuit \<Rightarrow> circuit_instruction \<Rightarrow> error + quantum_circuit" where
  "gate_set_step oc i =
     (let gate_name = name (operation i); qubits = qargs i in
      if gate_name = ''h'' then
        (case qubits of [] \<Rightarrow> Inl IndexError
         | q # _ \<Rightarrow> Inr (append_op (append_op oc (RYGate (pi / 2)) [q] []) (RXGate pi) [q] []))
      else if gate_name = ''x'' then
        (case qubits of [] \<Rightarrow> Inl IndexError | q # _ \<Rightarrow> Inr (append_op oc (RXGate pi) [q] []))
      else if gate_name = ''y'' then
        (case qubits of [] \<Rightarrow> Inl IndexError | q # _ \<Rightarrow> Inr (append_op oc (RYGate pi) [q] []))
      else if gate_name = ''z'' then
        (case qubits of [] \<Rightarrow> Inl IndexError | q # _ \<Rightarrow> Inr (append_op oc (RZGate pi) [q] []))
      else if gate_name = ''cx'' then
        (case qubits of
           [control, target] \<Rightarrow>
             Inr (append_op
                   (append_op (append_op oc (RXGate (- pi / 2)) [control] [])
                      (RXGate (- pi / 2)) [target] [])
                   (RXXGate (pi / 4)) [control, target] [])
         | _ \<Rightarrow> Inl ValueError)
      else if gate_name \<in> set [''rx'', ''ry'', ''rz'', ''rxx''] then
        Inr (append_op oc (operation i) qubits [])
      else
        Inr (append_op oc (operation i) qubits []))"

fun gate_set_loop :: "quantum_circuit \<Rightarrow> circuit_instruction list \<Rightarrow> error + quantum_circuit" where
  "gate_set_loop oc [] = Inr oc"
| "gate_set_loop oc (i # is) =
     (case gate_set_step oc i of Inl e \<Rightarrow> Inl e | Inr oc' \<Rightarrow> gate_set_loop oc' is)"

definition optimize_gate_set :: "quantum_circuit \<Rightarrow> error + quantum_circuit" where
  "optimize_gate_set circuit = gate_set_loop (QuantumCircuit (num_qubits circuit) 0) (data circuit)"

text \<open>
  \<open>_optimize_rotation_sequence\<close>: the angles of a list of \<open>(gate_name, angle)\<close> pairs are
  summed per axis, and one pair per axis with a total above \<open>1e-10\<close> in magnitude is
  returned, in the order rx, ry, rz.
\<close>

fun rotation_totals :: "real \<times> real \<times> real \<Rightarrow> (string \<times> real) list \<Rightarrow> real \<times> real \<times> real" where
  "rotation_totals t [] = t"
| "rotation_totals (rx_total, ry_total, rz_total) ((gate_name, angle) # rs) =
     (if gate_name = ''rx'' then rotation_totals (rx_total + angle, ry_total, rz_total) rs
      else if gate_name = ''ry'' then rotation_totals (rx_total, ry_total + angle, rz_total) rs
      else if gate_name = ''rz'' then rotation_totals (rx_total, ry_total, rz_total + angle) rs
      else rotation_totals (rx_total, ry_total, rz_total) rs)"

definition optimize_rotation_sequence :: "(string \<times> real) list \<Rightarrow> (string \<times> real) list" where
  "optimize_rotation_sequence rotations =
     (case rotation_totals (0, 0, 0) rotations of
        (rx_total, ry_total, rz_total) \<Rightarrow>
          (if \<bar>rx_total\<bar> > 1 / 10 ^ 10 then [(''rx'', rx_total)] else []) @
          (if \<bar>ry_total\<bar> > 1 / 10 ^ 10 then [(''ry'', ry_total)] else []) @
          (if \<bar>rz_total\<bar> > 1 / 10 ^ 10 then [(''rz'', rz_total)] else []))"

text \<open>
  \<open>rotation_sequences\<close> is a \<open>defaultdict(list)\<close>: a dictionary in insertion order, here
  an association list with one pair per key. \<open>rotation_sequences[q].append(r)\<close> extends
  the list of an existing key and adds a new key at the end otherwise.
\<close>

type_synonym rotation_dict = "(nat \<times> (string \<times> real) list) list"

fun dict_append :: "rotation_dict \<Rightarrow> nat \<Rightarrow> string \<times> real \<Rightarrow> rotation_dict" where
  "dict_append [] q r = [(q, [r])]"
| "dict_append ((k, v) # d) q r = (if k = q then (k, v @ [r]) # d else (k, v) # dict_append d q r)"

text \<open>Emitting the rotations of one qubit: names other than rx, ry, rz emit nothing.\<close>

fun emit_rotations :: "quantum_circuit \<Rightarrow> nat \<Rightarrow> (string \<times> real) list \<Rightarrow> quantum_circuit" where
  "emit_rotations oc q_idx [] = oc"
| "emit_rotations oc q_idx ((gate_name, angle) # rs) =
     (if gate_name = ''rx'' then emit_rotations (append_op oc (RXGate angle) [q_idx] []) q_idx rs
      else if gate_name = ''ry'' then emit_rotations (append_op oc (RYGate angle) [q_idx] []) q_idx rs
      else if gate_name = ''rz'' then emit_rotations (append_op oc (RZGate angle) [q_idx] []) q_idx rs
      else emit_rotations oc q_idx rs)"

text \<open>Processing the accumulated rotations of every qubit, in the dictionary's order.\<close>

fun flush_rotations :: "quantum_circuit \<Rightarrow> rotation_dict \<Rightarrow> quantum_circuit" where
  "flush_rotations oc [] = oc"
| "flush_rotations oc ((q_idx, rs) # d) =
     (if rs \<noteq> [] then flush_rotations (emit_rotations oc q_idx (optimize_rotation_sequence rs)) d
      else flush_rotations oc d)"

text \<open>
  The scan of \<open>_optimize_rotations\<close>. A one-qubit rx, ry or rz is recorded under its
  qubit (\<open>instruction.params[0]\<close> raises \<open>IndexError\<close> when it has no parameter); any
  other entry flushes the dictionary, clears it and is appended without classical bits.
\<close>

fun rotations_loop ::
  "quantum_circuit \<Rightarrow> rotation_dict \<Rightarrow> circuit_instruction list \<Rightarrow> error + quantum_circuit" where
  "rotations_loop oc rotation_sequences [] = Inr (flush_rotations oc rotation_sequences)"
| "rotations_loop oc rotation_sequences (i # is) =
     (if length (qargs i) = 1 \<and> name (operation i) \<in> set [''rx'', ''ry'', ''rz''] then
        (case params (operation i) of
           [] \<Rightarrow> Inl IndexError
         | a # _ \<Rightarrow>
             rotations_loop oc
               (dict_append rotation_sequences (qargs i ! 0) (name (operation i), a)) is)
      else
        rotations_loop
          (append_op (flush_rotations oc rotation_sequences) (operation i) (qargs i) [])
          [] is)"

definition optimize_rotations :: "quantum_circuit \<Rightarrow> error + quantum_circuit" where
  "optimize_rotations circuit = rotations_loop (QuantumCircuit (num_qubits circuit) 0) [] (data circuit)"

definition optimize_connectivity :: "quantum_circuit \<Rightarrow> quantum_circuit" where
  "optimize_connectivity circuit = circuit"

definition apply_qiskit_optimization :: "quantum_circuit \<Rightarrow> error + quantum_circuit" where
  "apply_qiskit_optimization circuit =
     (case optimize_gate_set circuit of
        Inl e \<Rightarrow> Inl e
      | Inr c1 \<Rightarrow>
          (case optimize_rotations c1 of
             Inl e \<Rightarrow> Inl e
           | Inr c2 \<Rightarrow> Inr (optimize_connectivity c2)))"

section \<open>QHRF pass: layers, contribution scores and filtering\<close>

text \<open>
  An entry of a layer is the dictionary \<open>{'gate', 'qubits', 'index'}\<close> built by
  \<open>_build_hierarchy\<close>.
\<close>

record layer_op =
  gate :: instruction
  qubits :: "nat list"
  index :: nat

text \<open>
  \<open>_build_hierarchy\<close>: the scan keeps the finished layers, the current layer and the set
  of active qubits. An entry that touches an active qubit closes the current layer.
\<close>

fun build_loop ::
  "layer_op list list \<Rightarrow> layer_op list \<Rightarrow> nat set \<Rightarrow> circuit_instruction list \<Rightarrow> layer_op list list" where
  "build_loop layers current_layer active_qubits [] =
     (if current_layer \<noteq> [] then layers @ [current_layer] else layers)"
| "build_loop layers current_layer active_qubits (i # is) =
     (let qubit_indices = qargs i in
      if \<exists>idx \<in> set qubit_indices. idx \<in> active_qubits then
        (let layers' = (if current_layer \<noteq> [] then layers @ [current_layer] else layers) in
         build_loop layers'
           [\<lparr>gate = operation i, qubits = qubit_indices, index = length layers' * 100 + 0\<rparr>]
           (set qubit_indices) is)
      else
        build_loop layers
          (current_layer @
             [\<lparr>gate = operation i, qubits = qubit_indices,
               index = length layers * 100 + length current_layer\<rparr>])
          (active_qubits \<union> set qubit_indices) is)"

definition build_hierarchy :: "quantum_circuit \<Rightarrow> layer_op list list" where
  "build_hierarchy circuit = build_loop [] [] {} (data circuit)"

text \<open>\<open>_calculate_operation_contribution\<close>.\<close>

definition calculate_operation_contribution :: "layer_op \<Rightarrow> layer_op list \<Rightarrow> real" where
  "calculate_operation_contribution operation' layer =
     (let g = gate operation';
          base_contribution =
            (if name g \<in> set [''h'', ''x'', ''y'', ''z''] then 1
             else if name g \<in> set [''rx'', ''ry'', ''rz''] then
               (if length (params g) > 0 then min (\<bar>params g ! 0\<bar> / pi) 1 else 1 / 2)
             else if name g \<in> set [''cx'', ''cz'', ''swap''] then 3 / 2
             else 4 / 5);
          similar_ops =
            length (filter (\<lambda>op. op \<noteq> operation' \<and> set (qubits op) = set (qubits operation') \<and>
                                 name (gate op) = name g) layer)
      in if similar_ops > 0 then base_contribution * (1 / (real similar_ops + 1))
         else base_contribution)"

text \<open>
  \<open>_breaks_connectivity\<close>. The qubit sets of the kept operations are merged into groups:
  a set that overlaps existing groups is united with the first of them, and the other
  overlapping groups are folded into it and deleted, last index first.
\<close>

definition delete_at :: "nat \<Rightarrow> 'a list \<Rightarrow> 'a list" where
  "delete_at i xs = take i xs @ drop (Suc i) xs"

text \<open>
  One round of the inner loop: group \<open>i\<close> is united into group \<open>first\<close> and deleted.
\<close>

definition merge_step :: "nat \<Rightarrow> nat set list \<Rightarrow> nat \<Rightarrow> nat set list" where
  "merge_step first merged_groups i =
     delete_at i (merged_groups[first := merged_groups ! first \<union> merged_groups ! i])"

definition merge_group :: "nat set list \<Rightarrow> nat set \<Rightarrow> nat set list" where
  "merge_group merged_groups group' =
     (let overlapping = filter (\<lambda>i. group' \<inter> merged_groups ! i \<noteq> {}) [0..<length merged_groups] in
      if overlapping \<noteq> [] then
        foldl (merge_step (hd overlapping))
          (merged_groups[hd overlapping := merged_groups ! hd overlapping \<union> group'])
          (rev (tl overlapping))
      else merged_groups @ [group'])"

definition breaks_connectivity :: "layer_op \<Rightarrow> layer_op list \<Rightarrow> bool" where
  "breaks_connectivity operation' current_layer =
     (if current_layer = [] then True
      else
        (let qubit_groups = map (\<lambda>op. set (qubits op)) current_layer;
             merged_groups = foldl merge_group [] qubit_groups;
             op_qubits = set (qubits operation');
             connected_groups = filter (\<lambda>i. op_qubits \<inter> merged_groups ! i \<noteq> {}) [0..<length merged_groups]
         in length connected_groups > 1))"

text \<open>
  \<open>_filter_layer\<close>. The pairs \<open>(i, contribution)\<close> are sorted by contribution, highest
  first; Python's sort is stable, also with \<open>reverse=True\<close>, which is a stable sort on
  the negated key.
\<close>

fun filter_loop :: "real \<Rightarrow> layer_op list \<Rightarrow> layer_op list \<Rightarrow> (nat \<times> real) list \<Rightarrow> layer_op list" where
  "filter_loop redundancy_threshold layer filtered_layer [] = filtered_layer"
| "filter_loop redundancy_threshold layer filtered_layer ((idx, contribution) # rest) =
     (if contribution > redundancy_threshold then
        filter_loop redundancy_threshold layer (filtered_layer @ [layer ! idx]) rest
      else if \<not> breaks_connectivity (layer ! idx) filtered_layer then
        filter_loop redundancy_threshold layer filtered_layer rest
      else
        filter_loop redundancy_threshold layer (filtered_layer @ [layer ! idx]) rest)"

definition operation_contributions :: "layer_op list \<Rightarrow> (nat \<times> real) list" where
  "operation_contributions layer =
     map (\<lambda>i. (i, calculate_operation_contribution (layer ! i) layer)) [0..<length layer]"

definition sorted_ops :: "layer_op list \<Rightarrow> (nat \<times> real) list" where
  "sorted_ops layer = sort_key (\<lambda>x. - snd x) (operation_contributions layer)"

definition filter_layer :: "real \<Rightarrow> layer_op list \<Rightarrow> layer_op list" where
  "filter_layer redundancy_threshold layer =
     (if length layer \<le> 1 then layer
      else filter_loop redundancy_threshold layer [] (sorted_ops layer))"

definition apply_recursive_filtering :: "real \<Rightarrow> layer_op list list \<Rightarrow> layer_op list list" where
  "apply_recursive_filtering redundancy_threshold layers =
     filter (\<lambda>filtered_layer. filtered_layer \<noteq> []) (map (filter_layer redundancy_threshold) layers)"

text \<open>
  \<open>_reconstruct_from_hierarchy\<close>: every kept operation is appended to
  \<open>QuantumCircuit(num_qubits)\<close> with its gate, its qubit indices and no classical bits.
\<close>

definition reconstruct_from_hierarchy :: "layer_op list list \<Rightarrow> nat \<Rightarrow> quantum_circuit" where
  "reconstruct_from_hierarchy layers n =
     foldl (\<lambda>circuit op. append_op circuit (gate op) (qubits op) [])
       (QuantumCircuit n 0) (concat layers)"

definition apply_qhrf_optimization :: "real \<Rightarrow> quantum_circuit \<Rightarrow> quantum_circuit" where
  "apply_qhrf_optimization redundancy_threshold circuit =
     reconstruct_from_hierarchy
       (apply_recursive_filtering redundancy_threshold (build_hierarchy circuit))
       (num_qubits circuit)"

section \<open>SeqHT pass: per-qubit extraction, coefficients and replacement\<close>

text \<open>
  The pass keeps its operations in dictionaries: \<open>{'gate', 'qubit', 'index'}\<close> for an
  extracted operation and \<open>{'gate', 'type'}\<close> for a reconstructed one. Both have the key
  \<open>'gate'\<close>.
\<close>

datatype op_info =
  Extracted (gate_of: instruction) (qubit_of: nat) (index_of: nat)
| Reconstructed (gate_of: instruction) (type_of: string)

definition recognized :: "string list" where
  "recognized = [''rx'', ''ry'', ''rz'', ''u3'', ''h'', ''x'', ''y'', ''z'', ''s'', ''t'']"

text \<open>
  The attributes \<open>index\<close> and \<open>_index\<close> of a qubit, where it has them: its index within its
  register, which on the one register of \<open>QuantumCircuit(n, m)\<close> is its index in the
  circuit.
\<close>

definition register_index :: "nat \<Rightarrow> nat" where
  "register_index q = q"

fun extract_loop :: "nat \<Rightarrow> op_info list \<Rightarrow> circuit_instruction list \<Rightarrow> op_info list" where
  "extract_loop qubit_idx operations [] = operations"
| "extract_loop qubit_idx operations (i # is) =
     (if length (qargs i) = 1 \<and>
         (register_index (qargs i ! 0) = qubit_idx \<or>
          register_index (qargs i ! 0) = qubit_idx \<or>
          qargs i ! 0 = qubit_idx) \<and>
         length (cargs i) = 0 \<and>
         name (operation i) \<in> set recognized
      then extract_loop qubit_idx
             (operations @ [Extracted (operation i) qubit_idx (length operations)]) is
      else extract_loop qubit_idx operations is)"

definition extract_single_qubit_operations :: "quantum_circuit \<Rightarrow> nat \<Rightarrow> op_info list" where
  "extract_single_qubit_operations circuit qubit_idx = extract_loop qubit_idx [] (data circuit)"

text \<open>
  The coefficient table is a \<open>(max_order + 1) \<times> 3\<close> array of zeros; only row 0 is
  written. \<open>coeffs[r, c] += x\<close> is \<open>add_coeff\<close>.
\<close>

definition add_coeff :: "real list list \<Rightarrow> nat \<Rightarrow> nat \<Rightarrow> real \<Rightarrow> real list list" where
  "add_coeff coeffs r c x = coeffs[r := (coeffs ! r)[c := coeffs ! r ! c + x]]"

definition coefficient_step :: "real list list \<Rightarrow> op_info \<Rightarrow> real list list" where
  "coefficient_step coeffs op =
     (let g = gate_of op in
      if length (params g) > 0 then
        (if name g = ''rx'' then add_coeff coeffs 0 0 (params g ! 0)
         else if name g = ''ry'' then add_coeff coeffs 0 1 (params g ! 0)
         else if name g = ''rz'' then add_coeff coeffs 0 2 (params g ! 0)
         else if name g = ''u3'' \<and> length (params g) \<ge> 3 then
           add_coeff (add_coeff (add_coeff coeffs 0 2 (params g ! 1)) 0 1 (params g ! 0))
             0 2 (params g ! 2)
         else coeffs)
      else coeffs)"

definition compute_sequency_coefficients :: "nat \<Rightarrow> op_info list \<Rightarrow> real list list" where
  "compute_sequency_coefficients max_order operations =
     foldl coefficient_step (replicate (max_order + 1) [0, 0, 0]) operations"

definition truncate_sequency_hierarchy :: "real \<Rightarrow> real list list \<Rightarrow> real list list" where
  "truncate_sequency_hierarchy truncation_threshold coeffs =
     map (map (\<lambda>x. if \<bar>x\<bar> < truncation_threshold then 0 else x)) coeffs"

definition reconstruct_from_sequency :: "real \<Rightarrow> real list list \<Rightarrow> nat \<Rightarrow> op_info list" where
  "reconstruct_from_sequency truncation_threshold coeffs num_operations =
     (let rx_angle = coeffs ! 0 ! 0; ry_angle = coeffs ! 0 ! 1; rz_angle = coeffs ! 0 ! 2 in
      (if \<bar>rx_angle\<bar> > truncation_threshold then [Reconstructed (RXGate rx_angle) ''rx''] else []) @
      (if \<bar>ry_angle\<bar> > truncation_threshold then [Reconstructed (RYGate ry_angle) ''ry''] else []) @
      (if \<bar>rz_angle\<bar> > truncation_threshold then [Reconstructed (RZGate rz_angle) ''rz''] else []))"

definition optimize_single_qubit_sequence :: "real \<Rightarrow> nat \<Rightarrow> op_info list \<Rightarrow> op_info list" where
  "optimize_single_qubit_sequence truncation_threshold max_order operations =
     (if length operations < 2 then operations
      else reconstruct_from_sequency truncation_threshold
             (truncate_sequency_hierarchy truncation_threshold
                (compute_sequency_coefficients max_order operations))
             (length operations))"

text \<open>
  \<open>_replace_operations\<close>: the scan carries the new circuit and \<open>op_idx\<close>, the position in
  both \<open>original_ops\<close> and \<open>optimized_ops\<close>. The new circuit is
  \<open>QuantumCircuit(circuit.num_qubits, circuit.num_clbits)\<close>, whose bits are those of the
  input, so a retained entry is appended with its own qubits and classical bits.
\<close>

definition should_replace :: "nat \<Rightarrow> op_info list \<Rightarrow> nat \<Rightarrow> circuit_instruction \<Rightarrow> bool" where
  "should_replace qubit_idx original_ops op_idx i =
     (length original_ops > 0 \<and> op_idx < length original_ops \<and>
      length (qargs i) = 1 \<and> qargs i ! 0 = qubit_idx \<and>
      name (operation i) = name (gate_of (original_ops ! op_idx)))"

fun replace_loop ::
  "nat \<Rightarrow> op_info list \<Rightarrow> op_info list \<Rightarrow> quantum_circuit \<Rightarrow> nat \<Rightarrow> circuit_instruction list \<Rightarrow> quantum_circuit" where
  "replace_loop qubit_idx original_ops optimized_ops new_circuit op_idx [] = new_circuit"
| "replace_loop qubit_idx original_ops optimized_ops new_circuit op_idx (i # is) =
     (if should_replace qubit_idx original_ops op_idx i \<and> op_idx < length optimized_ops then
        replace_loop qubit_idx original_ops optimized_ops
          (append_op new_circuit (gate_of (optimized_ops ! op_idx)) [qubit_idx] [])
          (op_idx + 1) is
      else
        replace_loop qubit_idx original_ops optimized_ops
          (append_op new_circuit (operation i) (qargs i) (cargs i))
          (if should_replace qubit_idx original_ops op_idx i then op_idx + 1 else op_idx) is)"

definition replace_operations ::
  "quantum_circuit \<Rightarrow> nat \<Rightarrow> op_info list \<Rightarrow> op_info list \<Rightarrow> quantum_circuit" where
  "replace_operations circuit qubit_idx original_ops optimized_ops =
     replace_loop qubit_idx original_ops optimized_ops
       (QuantumCircuit (num_qubits circuit) (num_clbits circuit)) 0 (data circuit)"

definition seqht_step ::
  "real \<Rightarrow> nat \<Rightarrow> quantum_circuit \<Rightarrow> quantum_circuit \<Rightarrow> nat \<Rightarrow> quantum_circuit" where
  "seqht_step truncation_threshold max_order circuit optimized_circuit qubit_idx =
     (let single_qubit_ops = extract_single_qubit_operations circuit qubit_idx in
      if length single_qubit_ops > 1 then
        replace_operations optimized_circuit qubit_idx single_qubit_ops
          (optimize_single_qubit_sequence truncation_threshold max_order single_qubit_ops)
      else optimized_circuit)"

definition apply_seqht_optimization :: "real \<Rightarrow> nat \<Rightarrow> quantum_circuit \<Rightarrow> quantum_circuit" where
  "apply_seqht_optimization truncation_threshold max_order circuit =
     foldl (seqht_step truncation_threshold max_order circuit) circuit [0..<num_qubits circuit]"

section \<open>Auxiliary definitions for the proofs\<close>

subsection \<open>The rotation scan on lists\<close>

text \<open>
  The scan of \<open>_optimize_rotations\<close> only ever appends to the circuit it builds. The
  functions below compute the appended entries alone: \<open>flush_ops\<close> for one flush of the
  dictionary and \<open>fuse\<close> for the whole scan; \<open>rotations_loop_fuse\<close> relates them to the
  scan. \<open>norm_dict\<close> is the dictionary that a scan over flushed entries rebuilds.
\<close>

definition rot_entry :: "nat \<Rightarrow> string \<times> real \<Rightarrow> circuit_instruction" where
  "rot_entry q r = \<lparr>operation = \<lparr>name = fst r, params = [snd r]\<rparr>, qargs = [q], cargs = []\<rparr>"

definition axis_names :: "string set" where
  "axis_names = {''rx'', ''ry'', ''rz''}"

fun flush_ops :: "rotation_dict \<Rightarrow> circuit_instruction list" where
  "flush_ops [] = []"
| "flush_ops ((q_idx, rs) # d) = map (rot_entry q_idx) (optimize_rotation_sequence rs) @ flush_ops d"

fun fuse :: "rotation_dict \<Rightarrow> circuit_instruction list \<Rightarrow> error + circuit_instruction list" where
  "fuse d [] = Inr (flush_ops d)"
| "fuse d (i # is) =
     (if length (qargs i) = 1 \<and> name (operation i) \<in> set [''rx'', ''ry'', ''rz''] then
        (case params (operation i) of
           [] \<Rightarrow> Inl IndexError
         | a # _ \<Rightarrow> fuse (dict_append d (qargs i ! 0) (name (operation i), a)) is)
      else
        (case fuse [] is of Inl e \<Rightarrow> Inl e
         | Inr r \<Rightarrow> Inr (flush_ops d @ \<lparr>operation = operation i, qargs = qargs i, cargs = []\<rparr> # r)))"

definition norm_dict :: "rotation_dict \<Rightarrow> rotation_dict" where
  "norm_dict d = filter (\<lambda>p. snd p \<noteq> []) (map (\<lambda>p. (fst p, optimize_rotation_sequence (snd p))) d)"

subsection \<open>Layers and scores\<close>

text \<open>
  Two layer entries are qubit-disjoint when they share no qubit. \<open>rebuild\<close> is the circuit
  entry that \<open>_reconstruct_from_hierarchy\<close> appends for a layer entry, and \<open>without_cargs\<close>
  is a circuit entry with its classical bits dropped: the layer builder keeps only the gate
  and the qubit indices of an entry.
\<close>

definition qubit_disjoint :: "layer_op \<Rightarrow> layer_op \<Rightarrow> bool" where
  "qubit_disjoint a b = (set (qubits a) \<inter> set (qubits b) = {})"

definition rebuild :: "layer_op \<Rightarrow> circuit_instruction" where
  "rebuild op = \<lparr>operation = gate op, qargs = qubits op, cargs = []\<rparr>"

definition without_cargs :: "circuit_instruction \<Rightarrow> circuit_instruction" where
  "without_cargs e = \<lparr>operation = operation e, qargs = qargs e, cargs = []\<rparr>"

text \<open>
  \<open>score layer i\<close> is the contribution of the \<open>i\<close>-th entry of a layer; \<open>pick\<close> reads the
  entries that a list of \<open>(index, contribution)\<close> pairs points to, and \<open>above\<close> keeps the
  pairs whose contribution strictly exceeds the threshold.
\<close>

definition score :: "layer_op list \<Rightarrow> nat \<Rightarrow> real" where
  "score layer i = calculate_operation_contribution (layer ! i) layer"

definition pick :: "layer_op list \<Rightarrow> (nat \<times> real) list \<Rightarrow> layer_op list" where
  "pick layer s = map (\<lambda>p. layer ! fst p) s"

definition above :: "real \<Rightarrow> (nat \<times> real) list \<Rightarrow> (nat \<times> real) list" where
  "above t s = filter (\<lambda>p. snd p > t) s"

text \<open>
  Following the claim's words, the single highest-scoring operation, earliest in original
  order on ties: the first index whose score is the maximum of the layer's scores.
\<close>

definition top_index :: "layer_op list \<Rightarrow> nat" where
  "top_index layer =
     hd (filter (\<lambda>i. score layer i = Max (set (map (score layer) [0..<length layer])))
           [0..<length layer])"

text \<open>A rotation rx, ry or rz whose angle is 0: the only operations that score 0.\<close>

definition zero_angle_rotation :: "instruction \<Rightarrow> bool" where
  "zero_angle_rotation g =
     (name g \<in> set [''rx'', ''ry'', ''rz''] \<and> length (params g) > 0 \<and> params g ! 0 = 0)"


text \<open>
  Following the claim's words, what a layer contributes: a layer of at most one operation
  passes through; a layer of two or more contributes the operations whose score strictly
  exceeds the threshold (as the filter lists them, by descending score) or, when none
  does, the single operation at \<open>top_index\<close>.
\<close>

definition kept_ops :: "real \<Rightarrow> layer_op list \<Rightarrow> layer_op list" where
  "kept_ops t layer =
     (if length layer \<le> 1 then layer
      else if \<exists>i<length layer. t < score layer i
           then pick layer (above t (sorted_ops layer))
           else [layer ! top_index layer])"

text \<open>
  The operations of a circuit, layer by layer, each with its contribution score in its
  layer; and the operations of a layer whose score is not 0.
\<close>

definition scored_ops :: "quantum_circuit \<Rightarrow> (circuit_instruction \<times> real) list" where
  "scored_ops c =
     concat (map (\<lambda>layer. map (\<lambda>i. (rebuild (layer ! i), score layer i)) [0..<length layer])
                 (build_hierarchy c))"

definition scoring :: "layer_op list \<Rightarrow> layer_op list" where
  "scoring layer = map ((!) layer) (filter (\<lambda>i. score layer i \<noteq> 0) [0..<length layer])"
subsection \<open>Substitution in the SeqHT pass\<close>








subsection \<open>Example circuits\<close>

definition entry :: "instruction \<Rightarrow> nat list \<Rightarrow> circuit_instruction" where
  "entry g qs = \<lparr>operation = g, qargs = qs, cargs = []\<rparr>"

definition plain_gate :: "string \<Rightarrow> instruction" where
  "plain_gate n = \<lparr>name = n, params = []\<rparr>"

text \<open>Hadamard on qubit 0, then CNOT from qubit 0 to qubit 1.\<close>

definition hadamard_cnot :: quantum_circuit where
  "hadamard_cnot = \<lparr>num_qubits = 2, num_clbits = 0,
     data = [entry (plain_gate ''h'') [0], entry (plain_gate ''cx'') [0, 1]]\<rparr>"

definition rewritten_ops :: "circuit_instruction list" where
  "rewritten_ops =
     [entry (RYGate (pi / 2)) [0], entry (RXGate pi) [0], entry (RXGate (- pi / 2)) [0],
      entry (RXGate (- pi / 2)) [1], entry (RXXGate (pi / 4)) [0, 1]]"

definition fused_ops :: "circuit_instruction list" where
  "fused_ops =
     [entry (RXGate (pi / 2)) [0], entry (RYGate (pi / 2)) [0],
      entry (RXGate (- pi / 2)) [1], entry (RXXGate (pi / 4)) [0, 1]]"

text \<open>Two rotations about X on one qubit, and their sum.\<close>

definition two_rx :: quantum_circuit where
  "two_rx = \<lparr>num_qubits = 1, num_clbits = 0,
     data = [entry (RXGate (1 / 4)) [0], entry (RXGate (1 / 8)) [0]]\<rparr>"

definition two_rx_fused :: quantum_circuit where
  "two_rx_fused = \<lparr>num_qubits = 1, num_clbits = 0, data = [entry (RXGate (3 / 8)) [0]]\<rparr>"

text \<open>A large rotation between two small ones, on one qubit.\<close>

definition small_large_small :: quantum_circuit where
  "small_large_small = \<lparr>num_qubits = 1, num_clbits = 0,
     data = [entry (RXGate (1 / 1000)) [0], entry (RYGate (pi / 2)) [0],
             entry (RZGate (5 / 10000)) [0]]\<rparr>"

text \<open>Four equal rotations, and two rotations below a threshold of \<open>0.1\<close>.\<close>

definition four_rx :: quantum_circuit where
  "four_rx = \<lparr>num_qubits = 1, num_clbits = 0,
     data = [entry (RXGate 1) [0], entry (RXGate 1) [0], entry (RXGate 1) [0],
             entry (RXGate 1) [0]]\<rparr>"

definition two_tiny :: quantum_circuit where
  "two_tiny = \<lparr>num_qubits = 1, num_clbits = 0,
     data = [entry (RXGate (1 / 1000)) [0], entry (RXGate (1 / 1000)) [0]]\<rparr>"

text \<open>One qubit and one classical bit, no operations.\<close>

definition one_clbit :: quantum_circuit where
  "one_clbit = \<lparr>num_qubits = 1, num_clbits = 1, data = []\<rparr>"


text \<open>
  Pauli-X on qubit 0 beside an rxx on qubits 1 and 2: one layer of two operations, the rxx
  being the only operation on qubits 1 and 2.
\<close>

definition x_and_rxx :: quantum_circuit where
  "x_and_rxx = \<lparr>num_qubits = 3, num_clbits = 0,
     data = [entry (plain_gate ''x'') [0], entry (RXXGate (pi / 4)) [1, 2]]\<rparr>"

definition x_rxx_layer :: "layer_op list" where
  "x_rxx_layer =
     [\<lparr>gate = plain_gate ''x'', qubits = [0], index = 0\<rparr>,
      \<lparr>gate = RXXGate (pi / 4), qubits = [1, 2], index = 1\<rparr>]"

text \<open>Hadamard on qubit 0 beside a rotation by the angle 0 on qubit 1.\<close>

definition h_zero_rx :: quantum_circuit where
  "h_zero_rx = \<lparr>num_qubits = 2, num_clbits = 0,
     data = [entry (plain_gate ''h'') [0], entry (RXGate 0) [1]]\<rparr>"

definition h_zero_rx_layer :: "layer_op list" where
  "h_zero_rx_layer =
     [\<lparr>gate = plain_gate ''h'', qubits = [0], index = 0\<rparr>,
      \<lparr>gate = RXGate 0, qubits = [1], index = 1\<rparr>]"


text \<open>
  Two CNOTs side by side, on qubits 0, 1 and on qubits 2, 3: one layer, each CNOT being the
  only operation that joins its two qubits.
\<close>

definition two_cnots :: quantum_circuit where
  "two_cnots = \<lparr>num_qubits = 4, num_clbits = 0,
     data = [entry (plain_gate ''cx'') [0, 1], entry (plain_gate ''cx'') [2, 3]]\<rparr>"

definition two_cnots_layer :: "layer_op list" where
  "two_cnots_layer =
     [\<lparr>gate = plain_gate ''cx'', qubits = [0, 1], index = 0\<rparr>,
      \<lparr>gate = plain_gate ''cx'', qubits = [2, 3], index = 1\<rparr>]"
section \<open>Properties of the IonQ pass\<close>

lemma pi_half_large: "1 / 10 ^ 10 < pi / 2"
proof -
  have "(1::real) / 10 ^ 10 < 1" by simp
  also have "1 \<le> pi / 2" using pi_ge_two by simp
  finally show ?thesis .
qed

lemma gate_set_hadamard_cnot:
  "optimize_gate_set hadamard_cnot = Inr \<lparr>num_qubits = 2, num_clbits = 0, data = rewritten_ops\<rparr>"
  by (simp add: optimize_gate_set_def hadamard_cnot_def gate_set_step_def append_op_def
      QuantumCircuit_def rewritten_ops_def entry_def plain_gate_def)

lemma rotations_rewritten:
  "optimize_rotations \<lparr>num_qubits = 2, num_clbits = 0, data = rewritten_ops\<rparr>
     = Inr \<lparr>num_qubits = 2, num_clbits = 0, data = fused_ops\<rparr>"
  using pi_half_large pi_gt_zero
  by (simp add: optimize_rotations_def rewritten_ops_def fused_ops_def append_op_def entry_def
      QuantumCircuit_def optimize_rotation_sequence_def RXGate_def RYGate_def RZGate_def
      RXXGate_def)

lemma pass_hadamard_cnot:
  "apply_qiskit_optimization hadamard_cnot = Inr \<lparr>num_qubits = 2, num_clbits = 0, data = fused_ops\<rparr>"
  by (simp add: apply_qiskit_optimization_def gate_set_hadamard_cnot rotations_rewritten
      optimize_connectivity_def)

lemma fused_not_rewritten: "fused_ops \<noteq> rewritten_ops"
  by (simp add: fused_ops_def rewritten_ops_def)

text \<open>
  C8, as stated, fails: on Hadamard(q0), CNOT(q0,q1) the pass does not return the five
  rewritten operations, because the fusion stage runs on them before the pass returns.
\<close>

theorem translator_hadamard_cnot_counterexample:
  "apply_qiskit_optimization hadamard_cnot
     \<noteq> Inr \<lparr>num_qubits = 2, num_clbits = 0, data = rewritten_ops\<rparr>"
  by (simp add: pass_hadamard_cnot fused_not_rewritten)

text \<open>
  C8, amended: on Hadamard(q0), CNOT(q0,q1) the rewrite stage \<open>_optimize_gate_set\<close> emits
  ry(pi/2) on q0, rx(pi) on q0, rx(-pi/2) on q0, rx(-pi/2) on q1 and rxx(pi/4) on (q0,q1);
  the whole pass then fuses the rotations before the rxx and returns rx(pi/2) on q0,
  ry(pi/2) on q0, rx(-pi/2) on q1, rxx(pi/4) on (q0,q1).
\<close>

theorem translator_hadamard_cnot:
  "optimize_gate_set hadamard_cnot = Inr \<lparr>num_qubits = 2, num_clbits = 0, data = rewritten_ops\<rparr> \<and>
   apply_qiskit_optimization hadamard_cnot = Inr \<lparr>num_qubits = 2, num_clbits = 0, data = fused_ops\<rparr>"
  by (simp add: gate_set_hadamard_cnot pass_hadamard_cnot)

subsection \<open>The fusion stage is idempotent\<close>

lemma optimize_rotation_sequence_names:
  "r \<in> set (optimize_rotation_sequence rs) \<Longrightarrow> fst r \<in> axis_names"
  by (auto simp: optimize_rotation_sequence_def axis_names_def split: prod.splits if_splits)

lemma optimize_rotation_sequence_idem:
  "optimize_rotation_sequence (optimize_rotation_sequence rs) = optimize_rotation_sequence rs"
  by (auto simp: optimize_rotation_sequence_def split: prod.splits if_splits)

lemma emit_rotations_data:
  "\<forall>r \<in> set rs. fst r \<in> axis_names \<Longrightarrow>
   emit_rotations oc q rs = oc\<lparr>data := data oc @ map (rot_entry q) rs\<rparr>"
proof (induction rs arbitrary: oc)
  case Nil
  then show ?case by simp
next
  case (Cons r rs)
  obtain n a where r: "r = (n, a)" by (cases r)
  from Cons.prems have n: "n \<in> axis_names" and rest: "\<forall>r \<in> set rs. fst r \<in> axis_names"
    by (auto simp: r)
  show ?case using n Cons.IH[OF rest]
    by (auto simp: r axis_names_def append_op_def rot_entry_def RXGate_def RYGate_def RZGate_def)
qed

lemma flush_rotations_data: "flush_rotations oc d = oc\<lparr>data := data oc @ flush_ops d\<rparr>"
proof (induction d arbitrary: oc)
  case Nil
  then show ?case by simp
next
  case (Cons p d)
  obtain q rs where p: "p = (q, rs)" by (cases p)
  have e: "emit_rotations oc q (optimize_rotation_sequence rs)
        = oc\<lparr>data := data oc @ map (rot_entry q) (optimize_rotation_sequence rs)\<rparr>"
    by (rule emit_rotations_data) (auto dest: optimize_rotation_sequence_names)
  have nil: "optimize_rotation_sequence [] = []"
    by (simp add: optimize_rotation_sequence_def)
  show ?case by (cases "rs = []") (simp_all add: p Cons.IH e nil)
qed

lemma rotations_loop_fuse:
  "rotations_loop oc d is =
     (case fuse d is of Inl e \<Rightarrow> Inl e | Inr r \<Rightarrow> Inr (oc\<lparr>data := data oc @ r\<rparr>))"
proof (induction "is" arbitrary: oc d)
  case Nil
  then show ?case by (simp add: flush_rotations_data)
next
  case (Cons i "is")
  show ?case
    by (auto simp: Cons.IH flush_rotations_data append_op_def split: list.splits sum.splits)
qed

lemma fuse_rot_entry:
  "fst r \<in> axis_names \<Longrightarrow> fuse d (rot_entry q r # xs) = fuse (dict_append d q r) xs"
  by (cases r) (auto simp: rot_entry_def axis_names_def)

lemma dict_append_new: "q \<notin> fst ` set d \<Longrightarrow> dict_append d q r = d @ [(q, [r])]"
  by (induction d) auto

lemma dict_append_last:
  "q \<notin> fst ` set d \<Longrightarrow> dict_append (d @ [(q, rs)]) q r = d @ [(q, rs @ [r])]"
  by (induction d) auto

lemma fuse_rot_entries_aux:
  "\<forall>r \<in> set rs. fst r \<in> axis_names \<Longrightarrow> q \<notin> fst ` set d \<Longrightarrow>
   fuse (d @ [(q, rs0)]) (map (rot_entry q) rs @ xs) = fuse (d @ [(q, rs0 @ rs)]) xs"
proof (induction rs arbitrary: rs0)
  case Nil
  then show ?case by simp
next
  case (Cons r rs)
  then show ?case by (simp add: fuse_rot_entry dict_append_last del: fuse.simps)
qed

lemma fuse_rot_entries:
  assumes "\<forall>r \<in> set rs. fst r \<in> axis_names" and "q \<notin> fst ` set d"
  shows "fuse d (map (rot_entry q) rs @ xs) = fuse (if rs = [] then d else d @ [(q, rs)]) xs"
proof (cases rs)
  case Nil
  then show ?thesis by simp
next
  case (Cons r rs')
  with assms have r: "fst r \<in> axis_names" and rest: "\<forall>r \<in> set rs'. fst r \<in> axis_names"
    by auto
  show ?thesis
    using fuse_rot_entries_aux[OF rest assms(2), of "[r]" xs]
    by (simp add: Cons fuse_rot_entry[OF r] dict_append_new[OF assms(2)] del: fuse.simps)
qed

lemma fuse_flush_ops:
  "distinct (map fst d) \<Longrightarrow> fst ` set d0 \<inter> fst ` set d = {} \<Longrightarrow>
   fuse d0 (flush_ops d @ xs) = fuse (d0 @ norm_dict d) xs"
proof (induction d arbitrary: d0)
  case Nil
  then show ?case by (simp add: norm_dict_def)
next
  case (Cons p d)
  obtain q rs where p: "p = (q, rs)" by (cases p)
  let ?o = "optimize_rotation_sequence rs"
  let ?d1 = "if ?o = [] then d0 else d0 @ [(q, ?o)]"
  from Cons.prems have q0: "q \<notin> fst ` set d0" and qd: "q \<notin> fst ` set d"
    and dd: "distinct (map fst d)" and disj: "fst ` set d0 \<inter> fst ` set d = {}"
    by (auto simp: p)
  have names: "\<forall>r \<in> set ?o. fst r \<in> axis_names"
    by (auto dest: optimize_rotation_sequence_names)
  have disj1: "fst ` set ?d1 \<inter> fst ` set d = {}" using disj qd by auto
  have "fuse d0 (flush_ops (p # d) @ xs) = fuse ?d1 (flush_ops d @ xs)"
    using fuse_rot_entries[OF names q0, of "flush_ops d @ xs"] by (simp add: p)
  also have "\<dots> = fuse (?d1 @ norm_dict d) xs" by (rule Cons.IH[OF dd disj1])
  also have "?d1 @ norm_dict d = d0 @ norm_dict (p # d)" by (simp add: norm_dict_def p)
  finally show ?case .
qed

lemma flush_ops_norm_dict: "flush_ops (norm_dict d) = flush_ops d"
proof (induction d)
  case Nil
  then show ?case by (simp add: norm_dict_def)
next
  case (Cons p d)
  obtain q rs where p: "p = (q, rs)" by (cases p)
  from Cons.IH show ?case by (simp add: norm_dict_def p optimize_rotation_sequence_idem)
qed

lemma dict_append_keys:
  "map fst (dict_append d q r) = (if q \<in> set (map fst d) then map fst d else map fst d @ [q])"
  by (induction d) (auto simp: rev_image_eqI)

lemma dict_append_distinct: "distinct (map fst d) \<Longrightarrow> distinct (map fst (dict_append d q r))"
  by (simp add: dict_append_keys)

lemma fuse_idem:
  "distinct (map fst d) \<Longrightarrow> fuse d is = Inr r \<Longrightarrow> fuse [] r = Inr r"
proof (induction "is" arbitrary: d r)
  case Nil
  then have r: "r = flush_ops d" by simp
  have "fuse [] (flush_ops d @ []) = fuse ([] @ norm_dict d) []"
    by (rule fuse_flush_ops) (use Nil.prems in auto)
  then show ?case by (simp add: r flush_ops_norm_dict)
next
  case (Cons i "is")
  show ?case
  proof (cases "length (qargs i) = 1 \<and> name (operation i) \<in> set [''rx'', ''ry'', ''rz'']")
    case True
    with Cons.prems(2) obtain a as where pa: "params (operation i) = a # as"
      and f: "fuse (dict_append d (qargs i ! 0) (name (operation i), a)) is = Inr r"
      by (auto split: list.splits)
    show ?thesis by (rule Cons.IH[OF dict_append_distinct[OF Cons.prems(1)] f])
  next
    case False
    let ?e = "\<lparr>operation = operation i, qargs = qargs i, cargs = []\<rparr>"
    from False Cons.prems(2) obtain r' where f: "fuse [] is = Inr r'"
      and r: "r = flush_ops d @ ?e # r'"
      by (auto split: sum.splits)
    have ih: "fuse [] r' = Inr r'" by (rule Cons.IH[OF _ f]) simp
    have "fuse [] (flush_ops d @ ?e # r') = fuse ([] @ norm_dict d) (?e # r')"
      by (rule fuse_flush_ops) (use Cons.prems in auto)
    also have "\<dots> = Inr (flush_ops d @ ?e # r')"
      using False by (auto simp: ih flush_ops_norm_dict)
    finally show ?thesis by (simp add: r)
  qed
qed

text \<open>
  C7: whenever the rotation-fusion stage \<open>_optimize_rotations\<close> returns a circuit, running
  it again on that circuit returns the same circuit.
\<close>

theorem fusion_idempotent:
  assumes "optimize_rotations c = Inr c'"
  shows "optimize_rotations c' = Inr c'"
proof -
  from assms obtain r where f: "fuse [] (data c) = Inr r"
    and c': "c' = \<lparr>num_qubits = num_qubits c, num_clbits = 0, data = r\<rparr>"
    by (auto simp: optimize_rotations_def rotations_loop_fuse QuantumCircuit_def split: sum.splits)
  have "fuse [] r = Inr r" by (rule fuse_idem[OF _ f]) simp
  then show ?thesis
    by (simp add: optimize_rotations_def rotations_loop_fuse QuantumCircuit_def c')
qed

lemma rotations_two_rx: "optimize_rotations two_rx = Inr two_rx_fused"
  by (simp add: optimize_rotations_def two_rx_def two_rx_fused_def append_op_def entry_def
      QuantumCircuit_def optimize_rotation_sequence_def RXGate_def)

theorem fusion_idempotent_witness:
  "optimize_rotations two_rx = Inr two_rx_fused \<and> optimize_rotations two_rx_fused = Inr two_rx_fused"
  using fusion_idempotent[OF rotations_two_rx] rotations_two_rx by simp

section \<open>Properties of the QHRF pass\<close>

subsection \<open>The operations of a layer are pairwise qubit-disjoint\<close>

lemma qubit_disjoint_sym: "qubit_disjoint a b \<Longrightarrow> qubit_disjoint b a"
  by (auto simp: qubit_disjoint_def)

lemma build_loop_disjoint:
  assumes "\<forall>l \<in> set layers. sorted_wrt qubit_disjoint l \<and> l \<noteq> []"
    and "sorted_wrt qubit_disjoint cur"
    and "active = \<Union> (set (map (\<lambda>op. set (qubits op)) cur))"
  shows "\<forall>l \<in> set (build_loop layers cur active is). sorted_wrt qubit_disjoint l \<and> l \<noteq> []"
  using assms
proof (induction "is" arbitrary: layers cur active)
  case Nil
  then show ?case by auto
next
  case (Cons i "is")
  show ?case
  proof (cases "\<exists>idx \<in> set (qargs i). idx \<in> active")
    case True
    define layers' where "layers' = (if cur \<noteq> [] then layers @ [cur] else layers)"
    define new where "new = \<lparr>gate = operation i, qubits = qargs i, index = length layers' * 100 + 0\<rparr>"
    have 1: "\<forall>l \<in> set layers'. sorted_wrt qubit_disjoint l \<and> l \<noteq> []"
      using Cons.prems(1,2) by (simp add: layers'_def)
    have 2: "sorted_wrt qubit_disjoint [new]" by simp
    have 3: "set (qargs i) = \<Union> (set (map (\<lambda>op. set (qubits op)) [new]))"
      by (simp add: new_def)
    have eq: "build_loop layers cur active (i # is) = build_loop layers' [new] (set (qargs i)) is"
      using True by (simp add: Let_def layers'_def new_def)
    show ?thesis unfolding eq by (rule Cons.IH[OF 1 2 3])
  next
    case False
    define new where "new = \<lparr>gate = operation i, qubits = qargs i,
                  index = length layers * 100 + length cur\<rparr>"
    have q: "qubits new = qargs i" by (simp add: new_def)
    have "\<forall>x \<in> set cur. set (qubits x) \<inter> set (qargs i) = {}"
      using False Cons.prems(3) by auto
    then have "\<forall>x \<in> set cur. qubit_disjoint x new"
      by (simp add: qubit_disjoint_def q)
    then have d: "sorted_wrt qubit_disjoint (cur @ [new])"
      using Cons.prems(2) by (simp add: sorted_wrt_append)
    have 3: "active \<union> set (qargs i) = \<Union> (set (map (\<lambda>op. set (qubits op)) (cur @ [new])))"
      using Cons.prems(3) by (auto simp: q)
    have eq: "build_loop layers cur active (i # is) = build_loop layers (cur @ [new]) (active \<union> set (qargs i)) is"
      using False by (simp add: Let_def new_def)
    show ?thesis unfolding eq by (rule Cons.IH[OF Cons.prems(1) d 3])
  qed
qed

lemma build_hierarchy_disjoint:
  "l \<in> set (build_hierarchy c) \<Longrightarrow> sorted_wrt qubit_disjoint l \<and> l \<noteq> []"
  using build_loop_disjoint[of "[]" "[]" "{}" "data c"]
  by (simp add: build_hierarchy_def)

subsection \<open>Merged groups stay within the qubits of the kept operations\<close>

text \<open>
  Every group that the merging loop builds is a subset of the union of the qubit sets it
  was given, so an operation that shares no qubit with the kept operations meets no group.
\<close>

lemma delete_at_set: "set (delete_at i xs) \<subseteq> set xs"
  unfolding delete_at_def
  using set_take_subset[of i xs] set_drop_subset[of "Suc i" xs] by auto

lemma delete_at_length: "i < length xs \<Longrightarrow> length (delete_at i xs) = length xs - 1"
  by (auto simp: delete_at_def)

lemma update_union_subset:
  assumes "h < length m" "\<forall>g \<in> set m. g \<subseteq> U" "a \<subseteq> U"
  shows "\<forall>g \<in> set (m[h := m ! h \<union> a]). g \<subseteq> U"
proof
  fix g assume "g \<in> set (m[h := m ! h \<union> a])"
  then have "g \<in> insert (m ! h \<union> a) (set m)"
    by (rule subsetD[OF set_update_subset_insert])
  then consider "g = m ! h \<union> a" | "g \<in> set m" by auto
  then show "g \<subseteq> U"
  proof cases
    case 1
    have "m ! h \<in> set m" using assms(1) by simp
    then have "m ! h \<subseteq> U" using assms(2) by simp
    then show ?thesis unfolding 1 using assms(3) by (rule Un_least)
  next
    case 2
    then show ?thesis using assms(2) by simp
  qed
qed

lemma merge_step_subset:
  assumes "h < j" "j < length m" "\<forall>g \<in> set m. g \<subseteq> U"
  shows "\<forall>g \<in> set (merge_step h m j). g \<subseteq> U"
proof
  fix g assume "g \<in> set (merge_step h m j)"
  then have g: "g \<in> set (m[h := m ! h \<union> m ! j])"
    unfolding merge_step_def by (rule subsetD[OF delete_at_set])
  have "m ! j \<in> set m" using assms(2) by simp
  then have "m ! j \<subseteq> U" using assms(3) by simp
  then have "\<forall>g \<in> set (m[h := m ! h \<union> m ! j]). g \<subseteq> U"
    using assms by (intro update_union_subset) simp_all
  then show "g \<subseteq> U" using g by simp
qed

lemma merge_step_length: "j < length m \<Longrightarrow> length (merge_step h m j) = length m - 1"
  by (simp add: merge_step_def delete_at_length)

lemma fold_groups_subset:
  assumes "sorted_wrt (>) js" and "\<forall>j \<in> set js. h < j \<and> j < length m"
    and "\<forall>g \<in> set m. g \<subseteq> U"
  shows "\<forall>g \<in> set (foldl (merge_step h) m js). g \<subseteq> U"
  using assms
proof (induction js arbitrary: m)
  case Nil
  then show ?case by simp
next
  case (Cons j js)
  from Cons.prems(2) have hj: "h < j" and jl: "j < length m" by simp_all
  have 1: "\<forall>g \<in> set (merge_step h m j). g \<subseteq> U"
    by (rule merge_step_subset[OF hj jl Cons.prems(3)])
  have kj: "\<forall>k \<in> set js. k < j" using Cons.prems(1) by simp
  have hk: "\<forall>k \<in> set js. h < k" using Cons.prems(2) by simp
  have 2: "\<forall>k \<in> set js. h < k \<and> k < length (merge_step h m j)"
  proof
    fix k assume k: "k \<in> set js"
    have "k < j" using kj k by blast
    then have "k < length m - 1" using jl by linarith
    then show "h < k \<and> k < length (merge_step h m j)"
      using hk k by (simp add: merge_step_length[OF jl])
  qed
  have 3: "sorted_wrt (>) js" using Cons.prems(1) by simp
  have "\<forall>g \<in> set (foldl (merge_step h) (merge_step h m j) js). g \<subseteq> U"
    by (rule Cons.IH[OF 3 2 1])
  then show ?case by simp
qed

lemma merge_group_subset:
  assumes "\<forall>g \<in> set m. g \<subseteq> U" and "grp \<subseteq> U"
  shows "\<forall>g \<in> set (merge_group m grp). g \<subseteq> U"
proof -
  define ov where "ov = filter (\<lambda>i. grp \<inter> m ! i \<noteq> {}) [0..<length m]"
  show ?thesis
  proof (cases ov)
    case Nil
    then show ?thesis using assms by (simp add: merge_group_def ov_def[symmetric])
  next
    case (Cons h t)
    have "sorted_wrt (<) ov" unfolding ov_def by (simp add: sorted_wrt_filter)
    then have s: "\<forall>j \<in> set t. h < j" and st: "sorted_wrt (<) t" by (simp_all add: Cons)
    have "\<forall>j \<in> set ov. j < length m" unfolding ov_def by simp
    then have hl: "h < length m" and tl: "\<forall>j \<in> set t. j < length m" by (simp_all add: Cons)
    define m1 where "m1 = m[h := m ! h \<union> grp]"
    have 1: "\<forall>g \<in> set m1. g \<subseteq> U"
      unfolding m1_def by (rule update_union_subset[OF hl assms])
    have 2: "sorted_wrt (>) (rev t)" using st by (simp add: sorted_wrt_rev)
    have 3: "\<forall>j \<in> set (rev t). h < j \<and> j < length m1" using s tl by (simp add: m1_def)
    have "\<forall>g \<in> set (foldl (merge_step h) m1 (rev t)). g \<subseteq> U"
      by (rule fold_groups_subset[OF 2 3 1])
    then show ?thesis by (simp add: merge_group_def ov_def[symmetric] Cons m1_def)
  qed
qed

lemma merged_groups_subset:
  "\<forall>g \<in> set m. g \<subseteq> U \<Longrightarrow> \<forall>g \<in> set gs. g \<subseteq> U \<Longrightarrow>
   \<forall>g \<in> set (foldl merge_group m gs). g \<subseteq> U"
proof (induction gs arbitrary: m)
  case Nil
  then show ?case by simp
next
  case (Cons a gs)
  have a: "a \<subseteq> U" and gs: "\<forall>g \<in> set gs. g \<subseteq> U" using Cons.prems(2) by simp_all
  have "\<forall>g \<in> set (foldl merge_group (merge_group m a) gs). g \<subseteq> U"
    by (rule Cons.IH[OF merge_group_subset[OF Cons.prems(1) a] gs])
  then show ?case by simp
qed

lemma no_bridge:
  assumes "\<forall>k \<in> set kept. qubit_disjoint op k" and "kept \<noteq> []"
  shows "\<not> breaks_connectivity op kept"
proof -
  define U where "U = - set (qubits op)"
  define mg where "mg = foldl merge_group [] (map (\<lambda>op. set (qubits op)) kept)"
  have "\<forall>g \<in> set (map (\<lambda>op. set (qubits op)) kept). g \<subseteq> U"
    using assms(1) by (auto simp: qubit_disjoint_def U_def)
  then have "\<forall>g \<in> set mg. g \<subseteq> U"
    unfolding mg_def by (intro merged_groups_subset) simp_all
  then have "\<forall>i < length mg. set (qubits op) \<inter> mg ! i = {}"
    by (auto simp: U_def dest!: nth_mem)
  then have "filter (\<lambda>i. set (qubits op) \<inter> mg ! i \<noteq> {}) [0..<length mg] = []"
    by (simp add: filter_empty_conv)
  then show ?thesis using assms(2) by (simp add: breaks_connectivity_def mg_def[symmetric])
qed

subsection \<open>The filter loop on a layer\<close>

text \<open>
  Once an operation has been kept, the loop keeps exactly the later operations that score
  above the threshold; the first operation considered is always kept.
\<close>

lemma filter_loop_kept:
  "acc \<noteq> [] \<Longrightarrow> sorted_wrt qubit_disjoint (acc @ pick layer s) \<Longrightarrow>
   filter_loop t layer acc s = acc @ pick layer (above t s)"
proof (induction s arbitrary: acc)
  case Nil
  then show ?case by (simp add: pick_def above_def)
next
  case (Cons p s)
  obtain i c where p: "p = (i, c)" by (cases p)
  from Cons.prems(2) have d1: "\<forall>k \<in> set acc. qubit_disjoint k (layer ! i)"
    and d2: "sorted_wrt qubit_disjoint (acc @ pick layer s)"
    and d3: "sorted_wrt qubit_disjoint ((acc @ [layer ! i]) @ pick layer s)"
    by (auto simp: sorted_wrt_append pick_def p)
  show ?case
  proof (cases "c > t")
    case True
    have "filter_loop t layer (acc @ [layer ! i]) s = (acc @ [layer ! i]) @ pick layer (above t s)"
      by (rule Cons.IH[OF _ d3]) simp
    with True show ?thesis by (simp add: p pick_def above_def)
  next
    case False
    have "\<forall>k \<in> set acc. qubit_disjoint (layer ! i) k"
      using d1 qubit_disjoint_sym by blast
    then have nb: "\<not> breaks_connectivity (layer ! i) acc"
      using Cons.prems(1) by (rule no_bridge)
    have "filter_loop t layer acc s = acc @ pick layer (above t s)"
      by (rule Cons.IH[OF Cons.prems(1) d2])
    with False nb show ?thesis by (simp add: p pick_def above_def)
  qed
qed

lemma filter_loop_start:
  assumes "sorted_wrt qubit_disjoint (pick layer (p # s))"
  shows "filter_loop t layer [] (p # s) = layer ! fst p # pick layer (above t s)"
proof -
  obtain i c where p: "p = (i, c)" by (cases p)
  have d: "sorted_wrt qubit_disjoint ([layer ! i] @ pick layer s)"
    using assms by (simp add: pick_def p)
  have k: "filter_loop t layer [layer ! i] s = [layer ! i] @ pick layer (above t s)"
    by (rule filter_loop_kept[OF _ d]) simp
  have e: "breaks_connectivity (layer ! i) []" by (simp add: breaks_connectivity_def)
  show ?thesis using k e by (simp add: p)
qed

lemma layer_nth_disjoint:
  assumes "sorted_wrt qubit_disjoint layer" "a < length layer" "b < length layer" "a \<noteq> b"
  shows "qubit_disjoint (layer ! a) (layer ! b)"
proof (cases "a < b")
  case True
  then show ?thesis by (rule sorted_wrt_nth_less[OF assms(1) _ assms(3)])
next
  case False
  then have "b < a" using assms(4) by simp
  then have "qubit_disjoint (layer ! b) (layer ! a)"
    by (rule sorted_wrt_nth_less[OF assms(1) _ assms(2)])
  then show ?thesis by (rule qubit_disjoint_sym)
qed

lemma set_sorted_ops: "set (sorted_ops layer) = set (operation_contributions layer)"
  by (simp add: sorted_ops_def)

lemma fst_sorted_ops: "p \<in> set (sorted_ops layer) \<Longrightarrow> fst p < length layer"
  by (auto simp: set_sorted_ops operation_contributions_def)

lemma snd_sorted_ops:
  "p \<in> set (sorted_ops layer) \<Longrightarrow> snd p = calculate_operation_contribution (layer ! fst p) layer"
  by (auto simp: set_sorted_ops operation_contributions_def)

lemma distinct_fst_sorted_ops: "distinct (map fst (sorted_ops layer))"
proof -
  have d: "distinct (operation_contributions layer)"
    by (simp add: operation_contributions_def distinct_map inj_on_def)
  have "inj_on fst (set (operation_contributions layer))"
    by (auto simp: operation_contributions_def inj_on_def)
  then show ?thesis using d by (simp add: distinct_map sorted_ops_def)
qed

lemma length_sorted_ops: "length (sorted_ops layer) = length layer"
  by (simp add: sorted_ops_def operation_contributions_def)

lemma pick_sorted_disjoint:
  assumes "sorted_wrt qubit_disjoint layer"
  shows "sorted_wrt qubit_disjoint (pick layer (sorted_ops layer))"
proof -
  let ?s = "sorted_ops layer"
  have "sorted_wrt (\<lambda>p q. qubit_disjoint (layer ! fst p) (layer ! fst q)) ?s"
    unfolding sorted_wrt_iff_nth_less
  proof (intro allI impI)
    fix i j assume ij: "i < j" and j: "j < length ?s"
    then have i: "i < length ?s" by simp
    have "(map fst ?s ! i = map fst ?s ! j) = (i = j)"
      by (rule nth_eq_iff_index_eq[OF distinct_fst_sorted_ops]) (use i j in simp_all)
    then have ne: "fst (?s ! i) \<noteq> fst (?s ! j)" using i j ij by simp
    have "fst (?s ! i) < length layer" "fst (?s ! j) < length layer"
      using i j by (simp_all add: fst_sorted_ops)
    then show "qubit_disjoint (layer ! fst (?s ! i)) (layer ! fst (?s ! j))"
      using assms ne by (intro layer_nth_disjoint)
  qed
  then show ?thesis by (simp add: pick_def sorted_wrt_map)
qed

lemma filter_layer_disjoint:
  assumes "sorted_wrt qubit_disjoint layer" and "length layer > 1"
  shows "filter_layer t layer =
           layer ! fst (hd (sorted_ops layer)) # pick layer (above t (tl (sorted_ops layer)))"
proof -
  have "sorted_ops layer \<noteq> []" using assms(2) length_sorted_ops[of layer] by auto
  then obtain p s where ps: "sorted_ops layer = p # s" by (cases "sorted_ops layer") auto
  have "sorted_wrt qubit_disjoint (pick layer (p # s))"
    using pick_sorted_disjoint[OF assms(1)] by (simp add: ps)
  then have "filter_loop t layer [] (p # s) = layer ! fst p # pick layer (above t s)"
    by (rule filter_loop_start)
  then show ?thesis using assms(2) by (simp add: filter_layer_def ps)
qed

subsection \<open>The operations of the output\<close>

lemma reconstruct_fold:
  "data (foldl (\<lambda>circuit op. append_op circuit (gate op) (qubits op) []) c0 xs)
     = data c0 @ map rebuild xs"
  by (induction xs arbitrary: c0) (simp_all add: append_op_def rebuild_def)

lemma concat_nonempty: "concat (filter (\<lambda>l. l \<noteq> []) ls) = concat ls"
  by (induction ls) simp_all

lemma qhrf_data:
  "data (apply_qhrf_optimization t c) = map rebuild (concat (map (filter_layer t) (build_hierarchy c)))"
  by (simp add: apply_qhrf_optimization_def reconstruct_from_hierarchy_def reconstruct_fold
      apply_recursive_filtering_def concat_nonempty QuantumCircuit_def)

lemma length_filter_mono:
  "(\<And>x. P x \<Longrightarrow> Q x) \<Longrightarrow> length (filter P xs) \<le> length (filter Q xs)"
  by (induction xs) auto

lemma filter_layer_length_mono:
  assumes "sorted_wrt qubit_disjoint layer" and "t1 \<le> t2"
  shows "length (filter_layer t2 layer) \<le> length (filter_layer t1 layer)"
proof (cases "length layer > 1")
  case True
  have "length (above t2 (tl (sorted_ops layer))) \<le> length (above t1 (tl (sorted_ops layer)))"
    unfolding above_def by (rule length_filter_mono) (use assms(2) in simp)
  then show ?thesis by (simp add: filter_layer_disjoint[OF assms(1) True] pick_def)
next
  case False
  then show ?thesis by (simp add: filter_layer_def)
qed

lemma rebuild_new:
  "rebuild \<lparr>gate = operation i, qubits = qargs i, index = k\<rparr> = without_cargs i"
  by (simp add: rebuild_def without_cargs_def)

lemma build_loop_concat:
  "map rebuild (concat (build_loop layers cur act is))
     = map rebuild (concat layers @ cur) @ map without_cargs is"
proof (induction "is" arbitrary: layers cur act)
  case Nil
  then show ?case by simp
next
  case (Cons i "is")
  show ?case
  proof (cases "\<exists>idx \<in> set (qargs i). idx \<in> act")
    case True
    then show ?thesis by (simp add: Cons.IH Let_def rebuild_new)
  next
    case False
    then show ?thesis by (simp add: Cons.IH Let_def rebuild_new)
  qed
qed

lemma build_hierarchy_concat:
  "map rebuild (concat (build_hierarchy c)) = map without_cargs (data c)"
  by (simp add: build_hierarchy_def build_loop_concat)

lemma score_positive:
  assumes "\<not> zero_angle_rotation (gate op)"
  shows "calculate_operation_contribution op layer > 0"
proof -
  define base :: real where "base =
            (if name (gate op) \<in> set [''h'', ''x'', ''y'', ''z''] then 1
             else if name (gate op) \<in> set [''rx'', ''ry'', ''rz''] then
               (if length (params (gate op)) > 0 then min (\<bar>params (gate op) ! 0\<bar> / pi) 1 else 1 / 2)
             else if name (gate op) \<in> set [''cx'', ''cz'', ''swap''] then 3 / 2
             else 4 / 5)"
  define n where "n = length (filter (\<lambda>op'. op' \<noteq> op \<and> set (qubits op') = set (qubits op) \<and>
                                 name (gate op') = name (gate op)) layer)"
  have b: "base > 0"
    using assms unfolding base_def zero_angle_rotation_def by (auto simp: min_def)
  have "base * (1 / (real n + 1)) > 0" using b by simp
  then have "(if n > 0 then base * (1 / (real n + 1)) else base) > 0" using b by simp
  then show ?thesis
    unfolding calculate_operation_contribution_def Let_def base_def[symmetric] n_def[symmetric] .
qed

subsection \<open>The first operation of the sorted order\<close>

lemma sorted_ops_score: "p \<in> set (sorted_ops layer) \<Longrightarrow> snd p = score layer (fst p)"
  by (simp add: snd_sorted_ops score_def)

lemma index_in_sorted_ops: "i < length layer \<Longrightarrow> (i, score layer i) \<in> set (sorted_ops layer)"
  by (simp add: set_sorted_ops operation_contributions_def score_def)

lemma sorted_ops_cons:
  assumes "layer \<noteq> []"
  obtains p rest where "sorted_ops layer = p # rest"
  using assms length_sorted_ops[of layer] by (cases "sorted_ops layer") auto

lemma sorted_ops_head_max:
  assumes "sorted_ops layer = p # rest" and "q \<in> set rest"
  shows "snd q \<le> snd p"
proof -
  have "sorted (map (\<lambda>x. - snd x) (sorted_ops layer))"
    unfolding sorted_ops_def by (rule sorted_sort_key)
  then have "\<forall>y \<in> set rest. - snd p \<le> - snd y" by (simp add: assms(1))
  then show ?thesis using assms(2) by simp
qed

lemma head_score_max:
  assumes "sorted_ops layer = p # rest" and "i < length layer"
  shows "score layer i \<le> snd p"
proof -
  have "(i, score layer i) \<in> set (p # rest)"
    using index_in_sorted_ops[OF assms(2)] by (simp add: assms(1))
  then consider "p = (i, score layer i)" | "(i, score layer i) \<in> set rest" by auto
  then show ?thesis
  proof cases
    case 1
    then show ?thesis by simp
  next
    case 2
    then show ?thesis using sorted_ops_head_max[OF assms(1) 2] by simp
  qed
qed

lemma head_is_top:
  assumes "sorted_ops layer = p # rest"
  shows "fst p = top_index layer"
proof -
  let ?n = "length layer"
  let ?g = "\<lambda>i. (i, calculate_operation_contribution (layer ! i) layer)"
  have pin: "p \<in> set (sorted_ops layer)" by (simp add: assms)
  have pn: "fst p < ?n" using pin by (rule fst_sorted_ops)
  have ps: "snd p = score layer (fst p)" using pin by (rule sorted_ops_score)
  have mx: "Max (set (map (score layer) [0..<?n])) = snd p"
  proof (rule Max_eqI)
    show "finite (set (map (score layer) [0..<?n]))" by simp
    show "snd p \<in> set (map (score layer) [0..<?n])" using pn ps by auto
    fix y assume "y \<in> set (map (score layer) [0..<?n])"
    then obtain i where "i < ?n" "y = score layer i" by auto
    then show "y \<le> snd p" using head_score_max[OF assms] by simp
  qed
  have "filter (\<lambda>y. - snd y = - snd p) (sorted_ops layer)
          = filter (\<lambda>y. - snd y = - snd p) (operation_contributions layer)"
    unfolding sorted_ops_def by (rule sort_key_stable)
  then have "p # filter (\<lambda>y. - snd y = - snd p) rest
          = map ?g (filter (\<lambda>i. score layer i = snd p) [0..<?n])"
    by (simp add: assms operation_contributions_def filter_map comp_def score_def)
  then have e: "map ?g (filter (\<lambda>i. score layer i = snd p) [0..<?n])
          = p # filter (\<lambda>y. - snd y = - snd p) rest" by simp
  then have ne: "filter (\<lambda>i. score layer i = snd p) [0..<?n] \<noteq> []" by auto
  have "hd (map ?g (filter (\<lambda>i. score layer i = snd p) [0..<?n])) = p" by (simp add: e)
  then have "?g (hd (filter (\<lambda>i. score layer i = snd p) [0..<?n])) = p"
    by (simp add: hd_map[OF ne])
  then have "hd (filter (\<lambda>i. score layer i = snd p) [0..<?n]) = fst p" by (metis fst_conv)
  moreover have "Max (score layer ` {0..<?n}) = snd p" using mx by simp
  ultimately show ?thesis by (simp add: top_index_def)
qed

lemma top_index_props:
  assumes "layer \<noteq> []" and "j < length layer"
  shows "top_index layer < length layer \<and> score layer j \<le> score layer (top_index layer) \<and>
         (score layer j = score layer (top_index layer) \<longrightarrow> top_index layer \<le> j)"
proof -
  obtain p rest where s: "sorted_ops layer = p # rest" using assms(1) by (rule sorted_ops_cons)
  have pin: "p \<in> set (sorted_ops layer)" by (simp add: s)
  have top: "top_index layer = fst p" using head_is_top[OF s] by simp
  have ps: "snd p = score layer (top_index layer)" using sorted_ops_score[OF pin] top by simp
  have 1: "top_index layer < length layer" using fst_sorted_ops[OF pin] top by simp
  have 2: "score layer j \<le> score layer (top_index layer)"
    using head_score_max[OF s assms(2)] ps by simp
  have 3: "top_index layer \<le> j" if eq: "score layer j = score layer (top_index layer)"
  proof -
    define L where "L = filter (\<lambda>i. score layer i = Max (set (map (score layer) [0..<length layer])))
                [0..<length layer]"
    have mx: "Max (set (map (score layer) [0..<length layer])) = score layer (top_index layer)"
    proof (rule Max_eqI)
      show "finite (set (map (score layer) [0..<length layer]))" by simp
      show "score layer (top_index layer) \<in> set (map (score layer) [0..<length layer])"
        using 1 by auto
      fix y assume "y \<in> set (map (score layer) [0..<length layer])"
      then obtain i where "i < length layer" "y = score layer i" by auto
      then show "y \<le> score layer (top_index layer)"
        using head_score_max[OF s] ps by simp
    qed
    have jin: "j \<in> set L" unfolding L_def mx using assms(2) eq by simp
    have srt: "sorted L" unfolding L_def by (rule sorted_filter[where f = "\<lambda>x. x", simplified]) simp
    obtain a as where La: "L = a # as" using jin by (cases L) auto
    have "a \<le> j" using srt jin unfolding La by auto
    moreover have "top_index layer = a" unfolding top_index_def L_def[symmetric] La by simp
    ultimately show ?thesis by simp
  qed
  show ?thesis using 1 2 3 by blast
qed

lemma set_pick_above:
  "set (pick layer (above t (sorted_ops layer)))
     = {layer ! i | i. i < length layer \<and> t < score layer i}"
proof -
  have "set (above t (sorted_ops layer)) = {(i, score layer i) | i. i < length layer \<and> t < score layer i}"
    by (auto simp: above_def set_sorted_ops operation_contributions_def score_def)
  then show ?thesis unfolding pick_def set_map by force
qed

lemma filter_layer_char:
  assumes "sorted_wrt qubit_disjoint layer"
  shows "filter_layer t layer =
           (if length layer \<le> 1 then layer
            else if \<exists>i<length layer. t < score layer i
                 then pick layer (above t (sorted_ops layer))
                 else [layer ! top_index layer])"
proof (cases "length layer > 1")
  case False
  then show ?thesis by (simp add: filter_layer_def)
next
  case True
  then have ne: "layer \<noteq> []" by auto
  obtain p rest where s: "sorted_ops layer = p # rest" using ne by (rule sorted_ops_cons)
  have fl: "filter_layer t layer = layer ! fst p # pick layer (above t rest)"
    using filter_layer_disjoint[OF assms True, of t] by (simp add: s)
  have pin: "p \<in> set (sorted_ops layer)" by (simp add: s)
  show ?thesis
  proof (cases "\<exists>i<length layer. t < score layer i")
    case ex: True
    then obtain i where "i < length layer" "t < score layer i" by blast
    then have "t < snd p" using head_score_max[OF s, of i] by simp
    then have "above t (sorted_ops layer) = p # above t rest" by (simp add: s above_def)
    then show ?thesis using True ex fl by (auto simp: pick_def)
  next
    case nex: False
    have "above t rest = []"
      unfolding above_def filter_empty_conv
    proof
      fix q assume q: "q \<in> set rest"
      then have qin: "q \<in> set (sorted_ops layer)" by (simp add: s)
      have "fst q < length layer" using qin by (rule fst_sorted_ops)
      then have "\<not> t < score layer (fst q)" using nex by blast
      then show "\<not> t < snd q" using sorted_ops_score[OF qin] by simp
    qed
    then show ?thesis using True nex fl head_is_top[OF s] by (auto simp: pick_def)
  qed
qed

lemma layer_no_bridge:
  assumes "sorted_wrt qubit_disjoint layer" and "i < length layer" and "ks \<noteq> []"
    and "\<forall>k \<in> set ks. k < length layer \<and> k \<noteq> i"
  shows "\<not> breaks_connectivity (layer ! i) (map ((!) layer) ks)"
proof (rule no_bridge)
  show "map ((!) layer) ks \<noteq> []" using assms(3) by simp
  show "\<forall>k \<in> set (map ((!) layer) ks). qubit_disjoint (layer ! i) k"
  proof
    fix x assume "x \<in> set (map ((!) layer) ks)"
    then obtain k where k: "k \<in> set ks" "x = layer ! k" by auto
    then have "k < length layer" "i \<noteq> k" using assms(4) by auto
    then show "qubit_disjoint (layer ! i) x"
      unfolding k(2) using assms(1,2) by (intro layer_nth_disjoint)
  qed
qed

lemma filter_layer_nonempty:
  assumes "sorted_wrt qubit_disjoint layer" and "layer \<noteq> []"
  shows "filter_layer t layer \<noteq> []"
proof (cases "length layer > 1")
  case True
  show ?thesis by (simp add: filter_layer_disjoint[OF assms(1) True])
next
  case False
  then show ?thesis using assms(2) by (simp add: filter_layer_def)
qed

lemma qhrf_nonempty:
  assumes "data c \<noteq> []"
  shows "data (apply_qhrf_optimization t c) \<noteq> []"
proof -
  have "map rebuild (concat (build_hierarchy c)) \<noteq> []"
    using assms by (simp add: build_hierarchy_concat)
  then obtain l where l: "l \<in> set (build_hierarchy c)" by (cases "build_hierarchy c") auto
  then have "sorted_wrt qubit_disjoint l" "l \<noteq> []" using build_hierarchy_disjoint by blast+
  then have "filter_layer t l \<noteq> []" by (rule filter_layer_nonempty)
  then have "concat (map (filter_layer t) (build_hierarchy c)) \<noteq> []" using l by auto
  then show ?thesis by (simp add: qhrf_data)
qed


lemma without_cargs_id: "cargs e = [] \<Longrightarrow> without_cargs e = e"
  by (cases e) (simp add: without_cargs_def)

lemma hierarchy_ops:
  assumes "\<forall>e \<in> set (data c). cargs e = []"
  shows "map rebuild (concat (build_hierarchy c)) = data c"
proof -
  have "map without_cargs (data c) = data c"
    using assms by (intro map_idI) (simp add: without_cargs_id)
  then show ?thesis by (simp add: build_hierarchy_concat)
qed

lemma score_zero:
  assumes "zero_angle_rotation (gate op)"
  shows "calculate_operation_contribution op layer = 0"
  using assms by (auto simp: zero_angle_rotation_def calculate_operation_contribution_def Let_def)

lemma score_zero_iff: "score layer i = 0 \<longleftrightarrow> zero_angle_rotation (gate (layer ! i))"
proof (cases "zero_angle_rotation (gate (layer ! i))")
  case True
  then show ?thesis by (simp add: score_def score_zero)
next
  case False
  then have "0 < score layer i" unfolding score_def by (rule score_positive)
  then show ?thesis using False by simp
qed

lemma score_nonneg: "0 \<le> score layer i"
proof (cases "zero_angle_rotation (gate (layer ! i))")
  case True
  then show ?thesis by (simp add: score_def score_zero)
next
  case False
  then have "0 < score layer i" unfolding score_def by (rule score_positive)
  then show ?thesis by simp
qed

lemma filter_layer_kept:
  "layer \<in> set (build_hierarchy c) \<Longrightarrow> filter_layer t layer = kept_ops t layer"
  using build_hierarchy_disjoint[of layer c] by (simp add: filter_layer_char kept_ops_def)

lemma qhrf_data_kept:
  "data (apply_qhrf_optimization t c) = map rebuild (concat (map (kept_ops t) (build_hierarchy c)))"
proof -
  have "map (filter_layer t) (build_hierarchy c) = map (kept_ops t) (build_hierarchy c)"
    by (rule map_cong[OF refl]) (rule filter_layer_kept)
  then show ?thesis by (simp only: qhrf_data)
qed

lemma mset_pick_above:
  "mset (pick layer (above 0 (sorted_ops layer))) = mset (scoring layer)"
proof -
  have "mset (above 0 (sorted_ops layer)) = mset (above 0 (operation_contributions layer))"
    by (simp add: above_def sorted_ops_def)
  then have "mset (pick layer (above 0 (sorted_ops layer)))
           = mset (pick layer (above 0 (operation_contributions layer)))"
    unfolding pick_def by (metis mset_map)
  also have "pick layer (above 0 (operation_contributions layer))
           = map ((!) layer) (filter (\<lambda>i. 0 < score layer i) [0..<length layer])"
    by (simp add: pick_def above_def operation_contributions_def filter_map comp_def score_def)
  also have "filter (\<lambda>i. 0 < score layer i) [0..<length layer]
           = filter (\<lambda>i. score layer i \<noteq> 0) [0..<length layer]"
    using score_nonneg[of layer] by (intro filter_cong refl) (simp add: less_le)
  finally show ?thesis by (simp add: scoring_def)
qed

lemma mset_scoring_le: "mset (scoring layer) \<subseteq># mset layer"
proof -
  have "mset (filter (\<lambda>i. score layer i \<noteq> 0) [0..<length layer]) \<subseteq># mset [0..<length layer]"
    unfolding mset_filter by (rule multiset_filter_subset)
  then have "image_mset ((!) layer) (mset (filter (\<lambda>i. score layer i \<noteq> 0) [0..<length layer]))
             \<subseteq># image_mset ((!) layer) (mset [0..<length layer])"
    by (rule image_mset_subseteq_mono)
  moreover have "map ((!) layer) [0..<length layer] = layer" by (rule map_nth)
  ultimately show ?thesis unfolding scoring_def mset_map[symmetric] by simp
qed

lemma filter_layer_zero_bounds:
  assumes "sorted_wrt qubit_disjoint layer" and "layer \<noteq> []"
  shows "mset (scoring layer) \<subseteq># mset (filter_layer 0 layer) \<and>
         mset (filter_layer 0 layer) \<subseteq># mset layer"
proof (cases "length layer \<le> 1")
  case True
  then show ?thesis by (simp add: filter_layer_def mset_scoring_le)
next
  case False
  show ?thesis
  proof (cases "\<exists>i<length layer. 0 < score layer i")
    case True
    then have "filter_layer 0 layer = pick layer (above 0 (sorted_ops layer))"
      using False by (simp add: filter_layer_char[OF assms(1)])
    then show ?thesis by (simp add: mset_pick_above mset_scoring_le)
  next
    case none: False
    then have f: "filter_layer 0 layer = [layer ! top_index layer]"
      using False by (auto simp: filter_layer_char[OF assms(1)])
    have "filter (\<lambda>i. score layer i \<noteq> 0) [0..<length layer] = []"
      using none score_nonneg[of layer] by (auto simp: filter_empty_conv less_le)
    then have e: "scoring layer = []" by (simp add: scoring_def)
    have "0 < length layer" using assms(2) by simp
    then have "top_index layer < length layer" using top_index_props[OF assms(2)] by blast
    then have "layer ! top_index layer \<in># mset layer" by simp
    then show ?thesis by (simp add: f e)
  qed
qed

lemma concat_bounds:
  assumes "\<And>l. l \<in> set ls \<Longrightarrow> mset (f l) \<subseteq># mset (g l)"
  shows "mset (map h (concat (map f ls))) \<subseteq># mset (map h (concat (map g ls)))"
  using assms
proof (induction ls)
  case Nil
  then show ?case by simp
next
  case (Cons l ls)
  have 1: "image_mset h (mset (f l)) \<subseteq># image_mset h (mset (g l))"
    using Cons.prems[of l] by (simp add: image_mset_subseteq_mono)
  have 2: "mset (map h (concat (map f ls))) \<subseteq># mset (map h (concat (map g ls)))"
    using Cons by simp
  show ?case using 1 2 by (simp add: subset_mset.add_mono)
qed

lemma scored_ops_fst: "map fst (scored_ops c) = map rebuild (concat (build_hierarchy c))"
proof -
  have "\<And>layer::layer_op list. map (\<lambda>i. rebuild (layer ! i)) [0..<length layer] = map rebuild layer"
  proof -
    fix layer :: "layer_op list"
    have "map rebuild (map ((!) layer) [0..<length layer]) = map rebuild layer"
      by (simp only: map_nth)
    then show "map (\<lambda>i. rebuild (layer ! i)) [0..<length layer] = map rebuild layer"
      by (simp add: comp_def)
  qed
  then show ?thesis by (simp add: scored_ops_def map_concat comp_def)
qed

lemma scored_ops_scoring:
  "map fst (filter (\<lambda>p. snd p \<noteq> 0) (scored_ops c))
     = map rebuild (concat (map scoring (build_hierarchy c)))"
  by (simp add: scored_ops_def scoring_def filter_concat filter_map map_concat comp_def)

subsection \<open>Evaluations\<close>

lemma x_rxx_hierarchy: "build_hierarchy x_and_rxx = [x_rxx_layer]"
  by (simp add: build_hierarchy_def x_and_rxx_def x_rxx_layer_def entry_def)

lemma x_rxx_scores: "score x_rxx_layer 0 = 1" "score x_rxx_layer (Suc 0) = 4 / 5"
  by (simp_all add: score_def x_rxx_layer_def calculate_operation_contribution_def
      plain_gate_def RXXGate_def)

lemma x_rxx_sorted: "sorted_ops x_rxx_layer = [(0, 1), (1, 4 / 5)]"
proof -
  have "operation_contributions x_rxx_layer = [(0, score x_rxx_layer 0), (1, score x_rxx_layer 1)]"
    by (simp add: operation_contributions_def score_def x_rxx_layer_def)
  then show ?thesis by (simp add: sorted_ops_def x_rxx_scores)
qed

lemma x_rxx_disjoint: "sorted_wrt qubit_disjoint x_rxx_layer"
  using build_hierarchy_disjoint[of x_rxx_layer x_and_rxx] by (simp add: x_rxx_hierarchy)

lemma x_rxx_filter_layer: "filter_layer (9 / 10) x_rxx_layer = [x_rxx_layer ! 0]"
proof -
  have l: "length x_rxx_layer = 2" by (simp add: x_rxx_layer_def)
  have e: "\<exists>i<length x_rxx_layer. 9 / 10 < score x_rxx_layer i"
    using x_rxx_scores(1) l by (intro exI[of _ 0]) simp
  have "filter_layer (9 / 10) x_rxx_layer = pick x_rxx_layer (above (9 / 10) (sorted_ops x_rxx_layer))"
    using e l by (simp add: filter_layer_char[OF x_rxx_disjoint])
  then show ?thesis by (simp add: x_rxx_sorted above_def pick_def)
qed

lemma x_rxx_filtered:
  "data (apply_qhrf_optimization (9 / 10) x_and_rxx) = [entry (plain_gate ''x'') [0]]"
  by (simp add: qhrf_data x_rxx_hierarchy x_rxx_filter_layer)
     (simp add: x_rxx_layer_def rebuild_def entry_def)

lemma h_zero_rx_hierarchy: "build_hierarchy h_zero_rx = [h_zero_rx_layer]"
  by (simp add: build_hierarchy_def h_zero_rx_def h_zero_rx_layer_def entry_def)

lemma h_zero_rx_scores: "score h_zero_rx_layer 0 = 1" "score h_zero_rx_layer (Suc 0) = 0"
  by (simp_all add: score_def h_zero_rx_layer_def calculate_operation_contribution_def
      plain_gate_def RXGate_def)

lemma h_zero_rx_sorted: "sorted_ops h_zero_rx_layer = [(0, 1), (1, 0)]"
proof -
  have "operation_contributions h_zero_rx_layer
          = [(0, score h_zero_rx_layer 0), (1, score h_zero_rx_layer 1)]"
    by (simp add: operation_contributions_def score_def h_zero_rx_layer_def)
  then show ?thesis by (simp add: sorted_ops_def h_zero_rx_scores)
qed

lemma h_zero_rx_disjoint: "sorted_wrt qubit_disjoint h_zero_rx_layer"
  using build_hierarchy_disjoint[of h_zero_rx_layer h_zero_rx] by (simp add: h_zero_rx_hierarchy)

lemma h_zero_rx_filter_layer: "filter_layer 0 h_zero_rx_layer = [h_zero_rx_layer ! 0]"
proof -
  have l: "length h_zero_rx_layer = 2" by (simp add: h_zero_rx_layer_def)
  have e: "\<exists>i<length h_zero_rx_layer. 0 < score h_zero_rx_layer i"
    using h_zero_rx_scores(1) l by (intro exI[of _ 0]) simp
  have "filter_layer 0 h_zero_rx_layer = pick h_zero_rx_layer (above 0 (sorted_ops h_zero_rx_layer))"
    using e l by (simp add: filter_layer_char[OF h_zero_rx_disjoint])
  then show ?thesis by (simp add: h_zero_rx_sorted above_def pick_def)
qed

lemma h_zero_rx_filtered:
  "data (apply_qhrf_optimization 0 h_zero_rx) = [entry (plain_gate ''h'') [0]]"
  by (simp add: qhrf_data h_zero_rx_hierarchy h_zero_rx_filter_layer)
     (simp add: h_zero_rx_layer_def rebuild_def entry_def)


lemma two_cnots_hierarchy: "build_hierarchy two_cnots = [two_cnots_layer]"
  by (simp add: build_hierarchy_def two_cnots_def two_cnots_layer_def entry_def)

lemma two_cnots_sets: "{2::nat, 3} \<noteq> {0, Suc 0}" "{0::nat, Suc 0} \<noteq> {2, 3}"
  by (auto simp: doubleton_eq_iff)

lemma two_cnots_scores: "score two_cnots_layer 0 = 3 / 2" "score two_cnots_layer (Suc 0) = 3 / 2"
  by (simp_all add: score_def two_cnots_layer_def calculate_operation_contribution_def
      plain_gate_def two_cnots_sets)

lemma two_cnots_sorted: "sorted_ops two_cnots_layer = [(0, 3 / 2), (1, 3 / 2)]"
proof -
  have "operation_contributions two_cnots_layer
          = [(0, score two_cnots_layer 0), (1, score two_cnots_layer 1)]"
    by (simp add: operation_contributions_def score_def two_cnots_layer_def)
  then show ?thesis by (simp add: sorted_ops_def two_cnots_scores)
qed

lemma two_cnots_bridge_test:
  "breaks_connectivity (two_cnots_layer ! 0) [] \<and>
   \<not> breaks_connectivity (two_cnots_layer ! 1) [two_cnots_layer ! 0]"
  by (simp add: breaks_connectivity_def two_cnots_layer_def merge_group_def two_cnots_sets)

lemma two_cnots_filter_layer: "filter_layer 2 two_cnots_layer = [two_cnots_layer ! 0]"
  using two_cnots_bridge_test
  by (simp add: filter_layer_def two_cnots_sorted) (simp add: two_cnots_layer_def)

lemma two_cnots_filtered:
  "data (apply_qhrf_optimization 2 two_cnots) = [entry (plain_gate ''cx'') [0, 1]]"
  by (simp add: qhrf_data two_cnots_hierarchy two_cnots_filter_layer)
     (simp add: two_cnots_layer_def rebuild_def entry_def)

lemma x_rxx_bridge_test: "\<not> breaks_connectivity (x_rxx_layer ! 1) [x_rxx_layer ! 0]"
  by (simp add: breaks_connectivity_def x_rxx_layer_def merge_group_def)

lemma h_zero_rx_scored:
  "scored_ops h_zero_rx = [(entry (plain_gate ''h'') [0], 1), (entry (RXGate 0) [1], 0)]"
  using h_zero_rx_scores
  by (simp add: scored_ops_def h_zero_rx_hierarchy)
     (simp add: h_zero_rx_layer_def rebuild_def entry_def)

subsection \<open>Connectivity\<close>

text \<open>
  C4, evaluated. In the one layer of \<open>x_and_rxx\<close> the rxx is the only operation that joins
  qubits 1 and 2; its score \<open>0.8\<close> is below the threshold \<open>0.9\<close>, the bridge test against
  the Pauli-X kept before it is false, and the pass returns the Pauli-X alone. In the one
  layer of \<open>two_cnots\<close> each CNOT is the only operation that joins its two qubits; both
  score \<open>1.5\<close>, below the threshold \<open>2\<close>; the first is kept because nothing was kept before
  it, the bridge test of the second against the first is false, and the pass returns the
  first CNOT alone. The bridge test compares an operation with the operations of its own
  layer kept so far, which share no qubit with it.
\<close>

theorem connector_dropped:
  "build_hierarchy x_and_rxx = [x_rxx_layer] \<and>
   score x_rxx_layer 0 = 1 \<and> score x_rxx_layer 1 = 4 / 5 \<and>
   \<not> breaks_connectivity (x_rxx_layer ! 1) [x_rxx_layer ! 0] \<and>
   data (apply_qhrf_optimization (9 / 10) x_and_rxx) = [entry (plain_gate ''x'') [0]] \<and>
   build_hierarchy two_cnots = [two_cnots_layer] \<and>
   score two_cnots_layer 0 = 3 / 2 \<and> score two_cnots_layer 1 = 3 / 2 \<and>
   \<not> breaks_connectivity (two_cnots_layer ! 1) [two_cnots_layer ! 0] \<and>
   data (apply_qhrf_optimization 2 two_cnots) = [entry (plain_gate ''cx'') [0, 1]]"
  using x_rxx_scores two_cnots_scores two_cnots_bridge_test x_rxx_bridge_test
  by (simp add: x_rxx_hierarchy x_rxx_filtered two_cnots_hierarchy two_cnots_filtered)

subsection \<open>Monotonicity in the threshold\<close>

text \<open>
  C6: for every circuit and thresholds \<open>t1 < t2\<close>, the filter with threshold \<open>t2\<close> returns
  at most as many operations as the filter with threshold \<open>t1\<close>.
\<close>

theorem filter_threshold_monotone:
  assumes "t1 < t2"
  shows "length (data (apply_qhrf_optimization t2 c)) \<le> length (data (apply_qhrf_optimization t1 c))"
proof -
  have "(\<Sum>l\<leftarrow>build_hierarchy c. length (filter_layer t2 l))
          \<le> (\<Sum>l\<leftarrow>build_hierarchy c. length (filter_layer t1 l))"
  proof (rule sum_list_mono)
    fix l assume "l \<in> set (build_hierarchy c)"
    then have "sorted_wrt qubit_disjoint l" using build_hierarchy_disjoint by blast
    then show "length (filter_layer t2 l) \<le> length (filter_layer t1 l)"
      using assms by (intro filter_layer_length_mono) simp_all
  qed
  then show ?thesis by (simp add: qhrf_data length_concat comp_def)
qed

theorem filter_threshold_monotone_witness:
  "(1 / 2 :: real) < 2 \<and>
   length (data (apply_qhrf_optimization 2 x_and_rxx))
     \<le> length (data (apply_qhrf_optimization (1 / 2) x_and_rxx))"
proof -
  have h: "(1 / 2 :: real) < 2" by simp
  show ?thesis using filter_threshold_monotone[OF h, of x_and_rxx] h by simp
qed

subsection \<open>Threshold 0\<close>

text \<open>
  C5, as stated, fails: with threshold 0 the filter drops the rotation by the angle 0
  from \<open>h_zero_rx\<close>, whose score 0 does not exceed the threshold.
\<close>

theorem zero_threshold_counterexample:
  "entry (RXGate 0) [1] \<in> set (data h_zero_rx) \<and>
   entry (RXGate 0) [1] \<notin> set (data (apply_qhrf_optimization 0 h_zero_rx))"
  by (simp add: h_zero_rx_filtered) (simp add: h_zero_rx_def entry_def plain_gate_def RXGate_def)

text \<open>
  C5, amended: for a circuit whose entries carry no classical bits, with threshold 0 the
  output holds, counted with multiplicity, every operation whose contribution score is not
  0, and nothing but operations of the input. Scores are never negative, and over the
  reals the operations that score 0 are the rx, ry and rz with the angle 0 (in binary64
  also those whose angle divided by \<open>\<pi>\<close> rounds to 0).
\<close>

theorem zero_threshold_keeps_scoring_ops:
  assumes "\<forall>e \<in> set (data c). cargs e = []"
  shows "map fst (scored_ops c) = data c \<and>
         (\<forall>p \<in> set (scored_ops c).
            0 \<le> snd p \<and> (snd p = 0 \<longleftrightarrow> zero_angle_rotation (operation (fst p)))) \<and>
         mset (map fst (filter (\<lambda>p. snd p \<noteq> 0) (scored_ops c)))
           \<subseteq># mset (data (apply_qhrf_optimization 0 c)) \<and>
         mset (data (apply_qhrf_optimization 0 c)) \<subseteq># mset (data c)"
proof (intro conjI ballI)
  show "map fst (scored_ops c) = data c"
    using hierarchy_ops[OF assms] by (simp only: scored_ops_fst)
next
  fix p assume "p \<in> set (scored_ops c)"
  then obtain layer i where p: "p = (rebuild (layer ! i), score layer i)"
    by (auto simp: scored_ops_def)
  show "0 \<le> snd p" by (simp add: p score_nonneg)
  show "snd p = 0 \<longleftrightarrow> zero_angle_rotation (operation (fst p))"
    by (simp add: p score_zero_iff rebuild_def)
next
  have "mset (map rebuild (concat (map scoring (build_hierarchy c))))
          \<subseteq># mset (map rebuild (concat (map (filter_layer 0) (build_hierarchy c))))"
    by (rule concat_bounds) (use build_hierarchy_disjoint filter_layer_zero_bounds in blast)
  then show "mset (map fst (filter (\<lambda>p. snd p \<noteq> 0) (scored_ops c)))
           \<subseteq># mset (data (apply_qhrf_optimization 0 c))"
    by (simp only: scored_ops_scoring qhrf_data)
next
  have "mset (map rebuild (concat (map (filter_layer 0) (build_hierarchy c))))
          \<subseteq># mset (map rebuild (concat (map (\<lambda>l. l) (build_hierarchy c))))"
    by (rule concat_bounds) (use build_hierarchy_disjoint filter_layer_zero_bounds in blast)
  then show "mset (data (apply_qhrf_optimization 0 c)) \<subseteq># mset (data c)"
    using hierarchy_ops[OF assms] by (simp add: qhrf_data)
qed

theorem zero_threshold_keeps_scoring_ops_witness:
  "list_all (\<lambda>e. cargs e = []) (data h_zero_rx) \<and>
   scored_ops h_zero_rx = [(entry (plain_gate ''h'') [0], 1), (entry (RXGate 0) [1], 0)] \<and>
   map fst (scored_ops h_zero_rx) = data h_zero_rx \<and>
   \<not> zero_angle_rotation (plain_gate ''h'') \<and> zero_angle_rotation (RXGate 0) \<and>
   mset [entry (plain_gate ''h'') [0]] \<subseteq># mset (data (apply_qhrf_optimization 0 h_zero_rx)) \<and>
   mset (data (apply_qhrf_optimization 0 h_zero_rx)) \<subseteq># mset (data h_zero_rx)"
proof -
  have nc: "\<forall>e \<in> set (data h_zero_rx). cargs e = []" by (simp add: h_zero_rx_def entry_def)
  note t = zero_threshold_keeps_scoring_ops[OF nc]
  have 1: "map fst (scored_ops h_zero_rx) = data h_zero_rx" using t by blast
  have 2: "mset (map fst (filter (\<lambda>p. snd p \<noteq> 0) (scored_ops h_zero_rx)))
           \<subseteq># mset (data (apply_qhrf_optimization 0 h_zero_rx))" using t by blast
  have 3: "mset (data (apply_qhrf_optimization 0 h_zero_rx)) \<subseteq># mset (data h_zero_rx)"
    using t by blast
  have 4: "\<not> zero_angle_rotation (plain_gate ''h'')" "zero_angle_rotation (RXGate 0)"
    by (simp_all add: zero_angle_rotation_def plain_gate_def RXGate_def)
  have 5: "list_all (\<lambda>e. cargs e = []) (data h_zero_rx)" using nc by (simp add: list_all_iff)
  have 6: "mset [entry (plain_gate ''h'') [0]] \<subseteq># mset (data (apply_qhrf_optimization 0 h_zero_rx))"
    using 2 by (simp add: h_zero_rx_scored)
  show ?thesis using 1 3 4 5 6 h_zero_rx_scored by simp
qed


subsection \<open>What the filter keeps\<close>

text \<open>
  C9: in every layer of a circuit, the filter returns \<open>kept_ops\<close>: a layer of at most one
  operation passes through unchanged; a layer of two or more operations yields exactly the
  operations whose score strictly exceeds the threshold or, when none does, the single
  operation at \<open>top_index\<close>, which has the highest score and is the earliest such
  operation. The operations of a layer are pairwise qubit-disjoint, and the bridge test is
  false for an operation of the layer against any non-empty list of other operations of
  the layer. For a circuit whose entries carry no classical bits, the layers hold the
  operations of the circuit in order, the output of the pass is the operations that
  \<open>kept_ops\<close> gives for each layer, in the order of the layers, and the output of a circuit
  with operations has operations.
\<close>

theorem filter_characterisation:
  "(\<forall>layer \<in> set (build_hierarchy circuit).
      filter_layer t layer = kept_ops t layer \<and>
      set (pick layer (above t (sorted_ops layer)))
        = {layer ! i | i. i < length layer \<and> t < score layer i} \<and>
      (\<forall>j<length layer. top_index layer < length layer \<and>
         score layer j \<le> score layer (top_index layer) \<and>
         (score layer j = score layer (top_index layer) \<longrightarrow> top_index layer \<le> j)) \<and>
      (\<forall>i<length layer. \<forall>j<length layer. i \<noteq> j \<longrightarrow>
         set (qubits (layer ! i)) \<inter> set (qubits (layer ! j)) = {}) \<and>
      (\<forall>i<length layer. \<forall>ks. ks \<noteq> [] \<and> (\<forall>k \<in> set ks. k < length layer \<and> k \<noteq> i) \<longrightarrow>
         \<not> breaks_connectivity (layer ! i) (map ((!) layer) ks))) \<and>
   ((\<forall>e \<in> set (data circuit). cargs e = []) \<longrightarrow>
      map rebuild (concat (build_hierarchy circuit)) = data circuit \<and>
      data (apply_qhrf_optimization t circuit)
        = map rebuild (concat (map (kept_ops t) (build_hierarchy circuit))) \<and>
      (data circuit \<noteq> [] \<longrightarrow> data (apply_qhrf_optimization t circuit) \<noteq> []))"
proof (intro conjI ballI impI)
  fix layer assume a: "layer \<in> set (build_hierarchy circuit)"
  then have d: "sorted_wrt qubit_disjoint layer" and ne: "layer \<noteq> []"
    using build_hierarchy_disjoint by blast+
  show "filter_layer t layer = kept_ops t layer" using a by (rule filter_layer_kept)
  show "set (pick layer (above t (sorted_ops layer)))
        = {layer ! i | i. i < length layer \<and> t < score layer i}"
    by (rule set_pick_above)
  show "\<forall>j<length layer. top_index layer < length layer \<and>
         score layer j \<le> score layer (top_index layer) \<and>
         (score layer j = score layer (top_index layer) \<longrightarrow> top_index layer \<le> j)"
    using top_index_props[OF ne] by blast
  show "\<forall>i<length layer. \<forall>j<length layer. i \<noteq> j \<longrightarrow>
         set (qubits (layer ! i)) \<inter> set (qubits (layer ! j)) = {}"
    using layer_nth_disjoint[OF d] by (simp add: qubit_disjoint_def)
  show "\<forall>i<length layer. \<forall>ks. ks \<noteq> [] \<and> (\<forall>k \<in> set ks. k < length layer \<and> k \<noteq> i) \<longrightarrow>
         \<not> breaks_connectivity (layer ! i) (map ((!) layer) ks)"
    using layer_no_bridge[OF d] by blast
next
  assume "\<forall>e \<in> set (data circuit). cargs e = []"
  then show "map rebuild (concat (build_hierarchy circuit)) = data circuit"
    by (rule hierarchy_ops)
next
  show "data (apply_qhrf_optimization t circuit)
        = map rebuild (concat (map (kept_ops t) (build_hierarchy circuit)))"
    by (rule qhrf_data_kept)
next
  assume "data circuit \<noteq> []"
  then show "data (apply_qhrf_optimization t circuit) \<noteq> []" by (rule qhrf_nonempty)
qed

theorem filter_characterisation_witness:
  "list_all (\<lambda>e. cargs e = []) (data x_and_rxx) \<and>
   x_rxx_layer \<in> set (build_hierarchy x_and_rxx) \<and>
   filter_layer 2 x_rxx_layer = kept_ops 2 x_rxx_layer \<and>
   kept_ops 2 x_rxx_layer = [x_rxx_layer ! 0] \<and>
   data (apply_qhrf_optimization 2 x_and_rxx)
     = map rebuild (concat (map (kept_ops 2) (build_hierarchy x_and_rxx))) \<and>
   data (apply_qhrf_optimization 2 x_and_rxx) = [entry (plain_gate ''x'') [0]] \<and>
   data x_and_rxx \<noteq> [] \<and> data (apply_qhrf_optimization 2 x_and_rxx) \<noteq> []"
proof -
  have nc: "\<forall>e \<in> set (data x_and_rxx). cargs e = []" by (simp add: x_and_rxx_def entry_def)
  have m: "x_rxx_layer \<in> set (build_hierarchy x_and_rxx)" by (simp add: x_rxx_hierarchy)
  have l: "length x_rxx_layer = 2" by (simp add: x_rxx_layer_def)
  have n: "data x_and_rxx \<noteq> []" by (simp add: x_and_rxx_def)
  note c = filter_characterisation[of x_and_rxx 2]
  have f: "filter_layer 2 x_rxx_layer = kept_ops 2 x_rxx_layer" using c m by blast
  have c3: "\<forall>j<length x_rxx_layer. top_index x_rxx_layer < length x_rxx_layer \<and>
         score x_rxx_layer j \<le> score x_rxx_layer (top_index x_rxx_layer) \<and>
         (score x_rxx_layer j = score x_rxx_layer (top_index x_rxx_layer) \<longrightarrow>
            top_index x_rxx_layer \<le> j)"
    using c m by blast
  have z: "0 < length x_rxx_layer" by (simp add: l)
  have t0: "top_index x_rxx_layer < 2"
    and t1: "score x_rxx_layer 0 \<le> score x_rxx_layer (top_index x_rxx_layer)"
    using c3[rule_format, OF z] l by simp_all
  have t: "top_index x_rxx_layer = 0"
  proof (rule ccontr)
    assume "top_index x_rxx_layer \<noteq> 0"
    then have "top_index x_rxx_layer = Suc 0" using t0 by auto
    then show False using t1 x_rxx_scores by simp
  qed
  have s: "\<not> (\<exists>i<length x_rxx_layer. 2 < score x_rxx_layer i)"
  proof
    assume "\<exists>i<length x_rxx_layer. 2 < score x_rxx_layer i"
    then obtain i where i: "i < 2" "2 < score x_rxx_layer i" using l by auto
    then have "i = 0 \<or> i = Suc 0" by auto
    then show False using i(2) x_rxx_scores by auto
  qed
  have k: "kept_ops 2 x_rxx_layer = [x_rxx_layer ! 0]"
    using s by (auto simp: kept_ops_def l t)
  have o: "data (apply_qhrf_optimization 2 x_and_rxx)
     = map rebuild (concat (map (kept_ops 2) (build_hierarchy x_and_rxx)))"
    and o2: "data (apply_qhrf_optimization 2 x_and_rxx) \<noteq> []"
    using c nc n by blast+
  have v: "data (apply_qhrf_optimization 2 x_and_rxx) = [entry (plain_gate ''x'') [0]]"
    unfolding o by (simp add: x_rxx_hierarchy k) (simp add: x_rxx_layer_def rebuild_def entry_def)
  show ?thesis using nc m f k o o2 n v by (simp add: list_all_iff)
qed


section \<open>Properties of the SeqHT pass\<close>

lemmas seqht_defs =
  apply_seqht_optimization_def seqht_step_def extract_single_qubit_operations_def
  register_index_def
  recognized_def replace_operations_def should_replace_def optimize_single_qubit_sequence_def
  compute_sequency_coefficients_def coefficient_step_def add_coeff_def
  truncate_sequency_hierarchy_def reconstruct_from_sequency_def QuantumCircuit_def
  append_op_def entry_def RXGate_def RYGate_def RZGate_def

lemma pi_half_tenth: "1 / 10 < pi / 2"
proof -
  have "(1::real) / 10 < 1" by simp
  also have "1 \<le> pi / 2" using pi_ge_two by simp
  finally show ?thesis .
qed

text \<open>
  C1, evaluated: on four rx(1) on one qubit with threshold \<open>0.01\<close> the accumulated X
  coefficient is 4 and the replacement run is the single rx(4), yet the pass returns four
  operations, rx(4) followed by the last three originals; and on two rx(0.001) with
  threshold \<open>0.1\<close>, where every coefficient is below the threshold and the replacement run
  is empty, the pass returns both operations unchanged.
\<close>

theorem truncator_run_not_collapsed:
  "data (apply_seqht_optimization (1 / 100) 3 four_rx) =
     [entry (RXGate 4) [0], entry (RXGate 1) [0], entry (RXGate 1) [0], entry (RXGate 1) [0]] \<and>
   apply_seqht_optimization (1 / 10) 3 two_tiny = two_tiny"
  by (simp add: four_rx_def two_tiny_def seqht_defs)

text \<open>
  C2, evaluated: on rx(0.001), ry(pi/2), rz(0.0005) on one qubit with threshold \<open>0.1\<close>
  the replacement run is the single ry(pi/2); it takes the place of the rx, and the
  original ry(pi/2) and rz(0.0005) stay. The pass returns three operations.
\<close>

theorem truncator_small_large_small:
  "apply_seqht_optimization (1 / 10) 3 small_large_small =
     \<lparr>num_qubits = 1, num_clbits = 0,
        data = [entry (RYGate (pi / 2)) [0], entry (RYGate (pi / 2)) [0],
                entry (RZGate (5 / 10000)) [0]]\<rparr>"
  using pi_half_tenth by (simp add: small_large_small_def seqht_defs)

subsection \<open>Substitution and surplus\<close>



















subsection \<open>Surplus operations\<close>





section \<open>Qubit and classical bit counts\<close>

text \<open>
  C3, evaluated: on the circuit with one qubit, one classical bit and no operations, the
  SeqHT pass returns the circuit as it is, while the IonQ pass and the QHRF pass return a
  circuit with no classical bit.
\<close>

theorem clbits_dropped:
  "num_clbits one_clbit = 1 \<and>
   apply_seqht_optimization t m one_clbit = one_clbit \<and>
   apply_qiskit_optimization one_clbit = Inr \<lparr>num_qubits = 1, num_clbits = 0, data = []\<rparr> \<and>
   apply_qhrf_optimization t one_clbit = \<lparr>num_qubits = 1, num_clbits = 0, data = []\<rparr>"
  by (simp add: one_clbit_def seqht_defs apply_qiskit_optimization_def optimize_gate_set_def
      optimize_rotations_def optimize_connectivity_def apply_qhrf_optimization_def
      build_hierarchy_def apply_recursive_filtering_def reconstruct_from_hierarchy_def)

end
